theory Spec2Isabelle
  imports Main "HOL-Library.Word" "HOL-Library.Signed_Division"
begin

unbundle bit_operations_syntax

section \<open>Machine types\<close>

text \<open>
  Go's fixed-width integers are words; \<open>int\<close> results of the accessors are
  read off as \<open>int\<close>. A \<open>[]byte\<close> is a list of bytes and a Go \<open>string\<close>, a byte
  sequence, is a list of 8-bit characters. The package type \<open>UUID\<close> is \<open>[]byte\<close>:
  nothing in the type fixes its length at 16.
\<close>

type_synonym byte = "8 word"
type_synonym uint16 = "16 word"
type_synonym uint32 = "32 word"
type_synonym uint64 = "64 word"
type_synonym int64 = "64 word"
type_synonym UUID = "byte list"

text \<open>
  Go's \<open>/\<close> on \<open>int64\<close> truncates towards zero and wraps in the one overflowing
  case; the divisor is never zero where the package divides.
\<close>

definition div_int64 :: "int64 \<Rightarrow> int64 \<Rightarrow> int64" where
  "div_int64 a b = word_of_int (sint a sdiv sint b)"

section \<open>Slices\<close>

text \<open>
  \<open>store off bs xs\<close> is the slice \<open>xs\<close> after the bytes \<open>bs\<close> were written
  into it from index \<open>off\<close> on, as \<open>PutUint64(xs[off:], v)\<close> or a read into
  \<open>xs[off:off+k]\<close> does through the shared backing array.
\<close>

definition store :: "nat \<Rightarrow> 'a list \<Rightarrow> 'a list \<Rightarrow> 'a list" where
  "store off bs xs = take off xs @ bs @ drop (off + length bs) xs"

text \<open>\<open>slice xs lo hi\<close> is \<open>xs[lo:hi]\<close>; \<open>None\<close> is the run-time panic of a bad bound.\<close>

definition slice :: "'a list \<Rightarrow> int \<Rightarrow> int \<Rightarrow> 'a list option" where
  "slice xs lo hi =
     (if 0 \<le> lo \<and> lo \<le> hi \<and> hi \<le> int (length xs)
      then Some (take (nat (hi - lo)) (drop (nat lo) xs)) else None)"

section \<open>encoding/binary, big endian\<close>

definition Uint16 :: "byte list \<Rightarrow> uint16" where
  "Uint16 b = ucast (b ! 1) OR push_bit 8 (ucast (b ! 0))"

definition Uint32 :: "byte list \<Rightarrow> uint32" where
  "Uint32 b = ucast (b ! 3) OR push_bit 8 (ucast (b ! 2)) OR push_bit 16 (ucast (b ! 1))
     OR push_bit 24 (ucast (b ! 0))"

definition Uint64 :: "byte list \<Rightarrow> uint64" where
  "Uint64 b = ucast (b ! 7) OR push_bit 8 (ucast (b ! 6)) OR push_bit 16 (ucast (b ! 5))
     OR push_bit 24 (ucast (b ! 4)) OR push_bit 32 (ucast (b ! 3)) OR push_bit 40 (ucast (b ! 2))
     OR push_bit 48 (ucast (b ! 1)) OR push_bit 56 (ucast (b ! 0))"

definition PutUint16 :: "uint16 \<Rightarrow> byte list" where
  "PutUint16 v = [ucast (drop_bit 8 v), ucast v]"

definition PutUint32 :: "uint32 \<Rightarrow> byte list" where
  "PutUint32 v = [ucast (drop_bit 24 v), ucast (drop_bit 16 v), ucast (drop_bit 8 v), ucast v]"

definition PutUint64 :: "uint64 \<Rightarrow> byte list" where
  "PutUint64 v = [ucast (drop_bit 56 v), ucast (drop_bit 48 v), ucast (drop_bit 40 v),
     ucast (drop_bit 32 v), ucast (drop_bit 24 v), ucast (drop_bit 16 v),
     ucast (drop_bit 8 v), ucast v]"

section \<open>encoding/hex and strings\<close>

text \<open>
  The standard library's hexadecimal codec, as the package calls it: the encoder
  writes two lower-case digits per byte; the decoder accepts digits of either case,
  reports the first invalid character, and reports an odd length after that.
\<close>

definition hextable :: string where
  "hextable = ''0123456789abcdef''"

fun EncodeToString :: "byte list \<Rightarrow> string" where
  "EncodeToString [] = []"
| "EncodeToString (v # vs) =
     hextable ! unat (drop_bit 4 v) # hextable ! unat (v AND 0x0f) # EncodeToString vs"

definition fromHexChar :: "char \<Rightarrow> byte option" where
  "fromHexChar c =
     (let n = (of_char c :: nat) in
      if 48 \<le> n \<and> n \<le> 57 then Some (of_nat (n - 48))
      else if 97 \<le> n \<and> n \<le> 102 then Some (of_nat (n - 97 + 10))
      else if 65 \<le> n \<and> n \<le> 70 then Some (of_nat (n - 65 + 10))
      else None)"

datatype hex_error = InvalidByteError char | ErrLength

fun DecodeString :: "string \<Rightarrow> hex_error + byte list" where
  "DecodeString (p # q # rest) =
     (case fromHexChar p of
        None \<Rightarrow> Inl (InvalidByteError p)
      | Some a \<Rightarrow>
         (case fromHexChar q of
            None \<Rightarrow> Inl (InvalidByteError q)
          | Some b \<Rightarrow>
             (case DecodeString rest of
                Inl e \<Rightarrow> Inl e
              | Inr bs \<Rightarrow> Inr ((push_bit 4 a OR b) # bs))))"
| "DecodeString [p] =
     (case fromHexChar p of None \<Rightarrow> Inl (InvalidByteError p) | Some a \<Rightarrow> Inl ErrLength)"
| "DecodeString [] = Inr []"

definition DecodedLen :: "nat \<Rightarrow> nat" where
  "DecodedLen x = x div 2"

text \<open>\<open>strings.Replace(s, "-", "", -1)\<close>: every dash is removed.\<close>

definition strip_dashes :: "string \<Rightarrow> string" where
  "strip_dashes s = filter (\<lambda>c. c \<noteq> CHR ''-'') s"

section \<open>The package\<close>

definition gregorianEpoch :: int64 where
  "gregorianEpoch = 0x01B21DD213814000"

definition randBufCap :: int where
  "randBufCap = 256"

text \<open>
  The package variables. \<open>randBuf\<close> is the slice's whole backing array of
  \<open>randBufCap\<close> bytes (the slice itself has length 8, and the generator re-slices
  it up to its capacity).
\<close>

record gen_state =
  randBuf :: "byte list"
  randBufOffset :: int
  clockSeqAndNode :: uint64
  clockSeq :: uint16
  nodeRand :: uint16

datatype error =
    ErrInputLength nat
  | ErrNotValidUUID string
  | ErrHex hex_error
  | ErrDiscardedBits uint32

subsection \<open>Time stamps\<close>

definition fromUnixNano :: "int64 \<Rightarrow> int64" where
  "fromUnixNano ts = div_int64 ts 100 + gregorianEpoch"

definition toUnixNano :: "int64 \<Rightarrow> int64" where
  "toUnixNano ts = (ts - gregorianEpoch) * 100"

subsection \<open>Initialisation\<close>

text \<open>
  The random source is an input: \<open>rd k\<close> are the bytes the \<open>k\<close>-th call of
  \<open>rand.Read\<close> has to give, of which the call takes as many as its buffer holds.
  \<open>init_retry\<close> is the retry loop, with \<open>i\<close> its counter and \<open>n\<close> the bytes
  read so far; \<open>init\<close> is \<open>None\<close> where the source panics.
\<close>

function init_retry :: "(nat \<Rightarrow> byte list) \<Rightarrow> nat \<Rightarrow> nat \<Rightarrow> byte list \<Rightarrow> nat \<times> byte list" where
  "init_retry rd i n buf =
     (if i < 8 \<and> n < 8
      then (let chunk = take (8 - n) (rd (Suc i))
            in init_retry rd (Suc i) (n + length chunk) (store n chunk buf))
      else (n, buf))"
  by pat_completeness auto
termination
  by (relation "measure (\<lambda>(rd, i, n, buf). 8 - i)") auto

declare init_retry.simps [simp del]

definition init :: "(nat \<Rightarrow> byte list) \<Rightarrow> gen_state option" where
  "init rd =
     (let first = take 8 (rd 0);
          (n, buf) = init_retry rd 0 (length first) (store 0 first (replicate 8 0))
      in if n < 8 then None
         else
           (let buf1 = buf[0 := (buf ! 0 AND 0x1f) OR push_bit 5 1];
                buf2 = buf1[2 := push_bit 2 (buf1 ! 2) OR 0x03];
                csan = Uint64 buf2
            in Some \<lparr> randBuf = buf2 @ replicate (nat randBufCap - 8) 0,
                      randBufOffset = 0,
                      clockSeqAndNode = csan,
                      clockSeq = ucast (drop_bit 48 csan AND 0x1fff),
                      nodeRand = ucast (csan AND 0xffff) \<rparr>))"

subsection \<open>The node id\<close>

definition SetNodeId :: "gen_state \<Rightarrow> uint32 \<Rightarrow> error option \<times> gen_state" where
  "SetNodeId s nodeId =
     (let csan = (clockSeqAndNode s AND 0xffff03000000ffff) OR
            push_bit 16 (ucast (push_bit 2 (nodeId AND 0x3f000000) OR (nodeId AND 0x00ffffff)) :: uint64)
      in (if drop_bit 30 nodeId \<noteq> 0 then Some (ErrDiscardedBits nodeId) else None,
          s\<lparr>clockSeqAndNode := csan\<rparr>))"

definition NodeId :: "gen_state \<Rightarrow> uint32" where
  "NodeId s =
     (let nodeId = drop_bit 16 (clockSeqAndNode s)
      in ucast ((nodeId AND 0x00ffffff) OR drop_bit 2 (nodeId AND 0xfc000000)))"

subsection \<open>Generators\<close>

text \<open>
  The time stamp part, the same in both generators: \<open>now\<close> is what
  \<open>timeNow().UTC().UnixNano()\<close> gives.
\<close>

definition put_timestamp :: "int64 \<Rightarrow> byte list \<Rightarrow> byte list" where
  "put_timestamp now uuid =
     (let ts = fromUnixNano now;
          uuid1 = store 0 (PutUint32 (ucast (ts AND 0xffffffff))) uuid;
          uuid2 = store 4 (PutUint16 (ucast (signed_drop_bit 32 ts AND 0xffff))) uuid1
      in store 6 (PutUint16 (ucast (signed_drop_bit 48 ts AND 0x0fff) OR push_bit 12 1)) uuid2)"

text \<open>
  \<open>New\<close>: \<open>r\<close> is what \<open>mrand.Int31n(0x10000)\<close> gives if it is called.
\<close>

definition New :: "gen_state \<Rightarrow> uint32 \<Rightarrow> int64 \<Rightarrow> UUID \<times> gen_state" where
  "New s r now =
     (let uuid = replicate 16 0;
          cs = (clockSeq s + 1) AND 0x1fff;
          nr = (if cs = 0 then ucast r else nodeRand s);
          csan = (clockSeqAndNode s AND 0xe000ffffffff0000) OR push_bit 48 (ucast cs) OR ucast nr;
          uuid1 = store 8 (PutUint64 csan) uuid
      in (put_timestamp now uuid1,
          s\<lparr>clockSeq := cs, nodeRand := nr, clockSeqAndNode := csan\<rparr>))"

text \<open>
  \<open>NewCrypto\<close>: \<open>rd\<close> are the bytes \<open>rand.Read\<close> has to give; it takes at
  most 4 of them. \<open>None\<close> is the panic of a slice expression out of the capacity.
\<close>

definition NewCrypto :: "gen_state \<Rightarrow> byte list \<Rightarrow> int64 \<Rightarrow> (UUID \<times> gen_state) option" where
  "NewCrypto s rd now =
     (let uuid = replicate 16 0;
          off = randBufOffset s
      in case slice (randBuf s) off (off + 4) of
           None \<Rightarrow> None
         | Some window \<Rightarrow>
            (let got = take 4 rd;
                 n = int (length got);
                 buf = store (nat off) got (randBuf s);
                 off1 = off + (n - 4);
                 off2 = (if off1 < 0 then 0 else off1)
             in case slice buf off2 (off2 + 4) of
                  None \<Rightarrow> None
                | Some bs \<Rightarrow>
                   (let val = Uint32 bs;
                        off3 = off2 + 4;
                        off4 = (if off3 > randBufCap - 4 then 0 else off3);
                        cs = (ucast (drop_bit 16 val AND 0x1fff) :: uint16);
                        nr = (ucast (val AND 0xffff) :: uint16);
                        csan = (clockSeqAndNode s AND 0xe000ffffffff0000) OR
                               push_bit 48 (ucast cs) OR ucast nr;
                        uuid1 = store 8 (PutUint64 csan) uuid
                    in Some (put_timestamp now uuid1,
                             s\<lparr>randBuf := buf, randBufOffset := off4, clockSeq := cs,
                               nodeRand := nr, clockSeqAndNode := csan\<rparr>))))"

subsection \<open>Constructors\<close>

definition NewFromBytes :: "byte list \<Rightarrow> error + UUID" where
  "NewFromBytes b =
     (if length b \<noteq> 16 then Inl (ErrInputLength (length b))
      else Inr (store 0 (take 16 b) (replicate 16 0)))"

definition NewFromString :: "string \<Rightarrow> error + UUID" where
  "NewFromString s =
     (let digits = strip_dashes s
      in if DecodedLen (length digits) \<noteq> 16 then Inl (ErrNotValidUUID s)
         else (case DecodeString digits of
                 Inl e \<Rightarrow> Inl (ErrHex e)
               | Inr uuid \<Rightarrow> Inr uuid))"

subsection \<open>Formatting and accessors\<close>

text \<open>
  An accessor slices its receiver; on a receiver too short for the slice it panics,
  which is \<open>None\<close> here.
\<close>

definition Hex :: "UUID \<Rightarrow> string" where
  "Hex u = EncodeToString u"

definition String :: "UUID \<Rightarrow> string option" where
  "String u =
     (let h = Hex u
      in if length h < 32 then None
         else Some (take 8 h @ ''-'' @ take 4 (drop 8 h) @ ''-'' @ take 4 (drop 12 h) @ ''-'' @
                    take 4 (drop 16 h) @ ''-'' @ take 12 (drop 20 h)))"

definition UUID_NodeId :: "UUID \<Rightarrow> uint32 option" where
  "UUID_NodeId u =
     (case slice u 8 16 of
        None \<Rightarrow> None
      | Some b \<Rightarrow>
         (let nodeId = drop_bit 16 (Uint64 b)
          in Some (ucast ((nodeId AND 0x00ffffff) OR drop_bit 2 (nodeId AND 0xfc000000)))))"

definition Version :: "UUID \<Rightarrow> int option" where
  "Version u =
     (case slice u 6 8 of
        None \<Rightarrow> None
      | Some b \<Rightarrow> Some (uint (drop_bit 12 (Uint16 b AND 0xf000))))"

definition Variant :: "UUID \<Rightarrow> int option" where
  "Variant u =
     (case slice u 8 10 of
        None \<Rightarrow> None
      | Some b \<Rightarrow> Some (uint (drop_bit 13 (Uint16 b AND 0xe000))))"

subsection \<open>Reachable generator states\<close>

text \<open>
  The states the package variables can be in: whatever \<open>init\<close> leaves, and from
  there any sequence of \<open>SetNodeId\<close>, \<open>New\<close> and \<open>NewCrypto\<close> calls.
\<close>

inductive reachable :: "gen_state \<Rightarrow> bool" where
  reach_init: "init rd = Some s \<Longrightarrow> reachable s"
| reach_SetNodeId: "reachable s \<Longrightarrow> reachable (snd (SetNodeId s v))"
| reach_New: "reachable s \<Longrightarrow> reachable (snd (New s r now))"
| reach_NewCrypto: "reachable s \<Longrightarrow> NewCrypto s rd now = Some (u, s') \<Longrightarrow> reachable s'"

text \<open>
  What every reachable state satisfies: the top three bits of the state word hold
  the value the initialisation put there, and the cursor leaves room for four bytes
  within the buffer's capacity.
\<close>

definition gen_inv :: "gen_state \<Rightarrow> bool" where
  "gen_inv s \<longleftrightarrow>
     drop_bit 61 (clockSeqAndNode s) = 1 \<and> int (length (randBuf s)) = randBufCap \<and>
     0 \<le> randBufOffset s \<and> randBufOffset s \<le> randBufCap - 4"

text \<open>
  \<open>gen_steps s s'\<close>: the state \<open>s'\<close> is \<open>s\<close> after some calls of the two
  generators and no other call.
\<close>

inductive gen_steps :: "gen_state \<Rightarrow> gen_state \<Rightarrow> bool" where
  gen_refl: "gen_steps s s"
| gen_New: "gen_steps s s' \<Longrightarrow> gen_steps s (snd (New s' r now))"
| gen_NewCrypto: "gen_steps s s' \<Longrightarrow> NewCrypto s' rd now = Some (u, s'') \<Longrightarrow> gen_steps s s''"

subsection \<open>Fixtures\<close>

text \<open>
  The identifier of the package's tests (\<open>uuid\<close> and \<open>uuidString\<close> in
  \<open>uuid_test.go\<close>), a random source that gives zero bytes, and the state
  \<open>init\<close> leaves on it.
\<close>

definition test_uuid :: UUID where
  "test_uuid = [0xf2, 0x54, 0xdf, 0x4a, 0x18, 0x4c, 0x10, 0x19,
                0x80, 0xa4, 0xc6, 0x1c, 0xd0, 0x0a, 0x68, 0x99]"

definition test_uuidString :: string where
  "test_uuidString = ''f254df4a-184c-1019-80a4-c61cd00a6899''"

definition zero_source :: "nat \<Rightarrow> byte list" where
  "zero_source k = replicate 8 0"

definition zero_state :: gen_state where
  "zero_state = \<lparr> randBuf = [0x20, 0, 0x03, 0, 0, 0, 0, 0] @ replicate 248 0,
                   randBufOffset = 0,
                   clockSeqAndNode = 0x2000030000000000,
                   clockSeq = 0,
                   nodeRand = 0 \<rparr>"

subsection \<open>Hexadecimal digits\<close>

text \<open>
  What the specification means by a valid hexadecimal digit and by its value, written
  down apart from the decoder: the sixteen digits in either case, and their values by
  table.
\<close>

definition spec_hexdigit :: "char \<Rightarrow> bool" where
  "spec_hexdigit c \<longleftrightarrow> c \<in> set ''0123456789abcdefABCDEF''"

definition spec_hexval :: "char \<Rightarrow> nat" where
  "spec_hexval c =
     (case map_of (zip ''0123456789abcdefABCDEF''
                       [0, 1, 2, 3, 4, 5, 6, 7, 8, 9, 10, 11, 12, 13, 14, 15,
                        10, 11, 12, 13, 14, 15]) c of
        Some n \<Rightarrow> n
      | None \<Rightarrow> 0)"

section \<open>Time stamp conversion\<close>



lemma sdiv100_abs: "\<bar>(k::int) sdiv 100\<bar> * 100 \<le> \<bar>k\<bar>"
proof -
  have "\<bar>k sdiv 100\<bar> = \<bar>k\<bar> div 100"
    by (simp add: signed_divide_int_def abs_mult sgn_if)
  then show ?thesis by simp
qed

lemma sint_int64_bounds:
  "- 9223372036854775808 \<le> sint (t :: int64) \<and> sint t < 9223372036854775808"
  using sint_ge [of t] sint_lt [of t] by simp

lemma sint_word_of_int64:
  "- 9223372036854775808 \<le> k \<Longrightarrow> k < 9223372036854775808 \<Longrightarrow> sint (word_of_int k :: int64) = k"
  by (simp add: sint_sbintrunc' signed_take_bit_int_eq_self)

lemma sdiv100_range:
  fixes t :: int64
  defines "q \<equiv> sint t sdiv 100"
  shows "- 92233720368547758 \<le> q \<and> q \<le> 92233720368547758"
proof -
  have b: "- 9223372036854775808 \<le> sint t \<and> sint t < 9223372036854775808"
    by (rule sint_int64_bounds)
  have a: "\<bar>q\<bar> * 100 \<le> \<bar>sint t\<bar>" unfolding q_def by (rule sdiv100_abs)
  show ?thesis using a b by arith
qed

lemma sint_fromUnixNano: "sint (fromUnixNano t) = sint t sdiv 100 + 0x01B21DD213814000"
proof -
  have r: "- 9223372036854775808 \<le> sint t sdiv 100 + 0x01B21DD213814000 \<and>
           sint t sdiv 100 + 0x01B21DD213814000 < 9223372036854775808"
    using sdiv100_range [of t] by arith
  have "fromUnixNano t = word_of_int (sint t sdiv 100 + 0x01B21DD213814000)"
    by (simp add: fromUnixNano_def div_int64_def gregorianEpoch_def)
  moreover have "sint (word_of_int (sint t sdiv 100 + 0x01B21DD213814000) :: int64)
      = sint t sdiv 100 + 0x01B21DD213814000"
    using r by (intro sint_word_of_int64) simp_all
  ultimately show ?thesis by (simp only:)
qed

lemma sint_toUnixNano_fromUnixNano:
  "sint (toUnixNano (fromUnixNano t)) = (sint t sdiv 100) * 100"
proof -
  have r: "- 9223372036854775808 \<le> (sint t sdiv 100) * 100 \<and>
           (sint t sdiv 100) * 100 < 9223372036854775808"
    using sdiv100_range [of t] by arith
  have "toUnixNano (fromUnixNano t) = (word_of_int ((sint t sdiv 100) * 100) :: int64)"
    by (simp add: toUnixNano_def fromUnixNano_def div_int64_def)
  moreover have "sint (word_of_int ((sint t sdiv 100) * 100) :: int64) = (sint t sdiv 100) * 100"
    using r by (intro sint_word_of_int64) simp_all
  ultimately show ?thesis by (simp only:)
qed

text \<open>
  Claim C9. For every \<open>int64\<close> nanosecond time stamp \<open>t\<close>, converting to the
  Gregorian epoch and back gives \<open>(t / 100) * 100\<close> with Go's truncating division, and
  no step of the two conversions overflows: read as integers, \<open>fromUnixNano t\<close> is
  \<open>t / 100 + 0x01B21DD213814000\<close> and the round trip is \<open>(t / 100) * 100\<close>.
\<close>

theorem C9_timestamp_roundtrip:
  "toUnixNano (fromUnixNano t) = div_int64 t 100 * 100 \<and>
   sint (fromUnixNano t) = sint t sdiv 100 + 0x01B21DD213814000 \<and>
   sint (toUnixNano (fromUnixNano t)) = (sint t sdiv 100) * 100"
  using sint_fromUnixNano [of t] sint_toUnixNano_fromUnixNano [of t]
  by (simp add: toUnixNano_def fromUnixNano_def)

section \<open>Bit masks and big-endian fields\<close>

lemma mask_e000ffffffff0000:
  "(0xe000ffffffff0000 :: uint64) = push_bit 16 (mask 32) OR push_bit 61 (mask 3)"
  by (simp add: mask_eq_exp_minus_1 push_bit_eq_mult)

lemma mask_ffff03000000ffff:
  "(0xffff03000000ffff :: uint64) = mask 16 OR push_bit 40 (mask 2) OR push_bit 48 (mask 16)"
  by (simp add: mask_eq_exp_minus_1 push_bit_eq_mult)

lemma mask_1fff: "(0x1fff :: 'a::len word) = mask 13"
  by (simp add: mask_eq_exp_minus_1)

lemma mask_ffff: "(0xffff :: 'a::len word) = mask 16"
  by (simp add: mask_eq_exp_minus_1)

lemma mask_0fff: "(0x0fff :: 'a::len word) = mask 12"
  by (simp add: mask_eq_exp_minus_1)

lemma mask_00ffffff: "(0x00ffffff :: 'a::len word) = mask 24"
  by (simp add: mask_eq_exp_minus_1)

lemma mask_3fffffff: "(0x3fffffff :: 'a::len word) = mask 30"
  by (simp add: mask_eq_exp_minus_1)

lemma mask_3f000000: "(0x3f000000 :: uint32) = push_bit 24 (mask 6)"
  by (simp add: mask_eq_exp_minus_1 push_bit_eq_mult)

lemma mask_fc000000: "(0xfc000000 :: uint64) = push_bit 26 (mask 6)"
  by (simp add: mask_eq_exp_minus_1 push_bit_eq_mult)

lemma mask_f000: "(0xf000 :: uint16) = push_bit 12 (mask 4)"
  by (simp add: mask_eq_exp_minus_1 push_bit_eq_mult)

lemma mask_e000: "(0xe000 :: uint16) = push_bit 13 (mask 3)"
  by (simp add: mask_eq_exp_minus_1 push_bit_eq_mult)


lemma setnode_node:
  fixes c :: uint64 and v :: uint32
  defines "c' \<equiv> (c AND 0xffff03000000ffff) OR
            push_bit 16 (ucast (push_bit 2 (v AND 0x3f000000) OR (v AND 0x00ffffff)) :: uint64)"
  shows "(ucast ((drop_bit 16 c' AND 0x00ffffff) OR drop_bit 2 (drop_bit 16 c' AND 0xfc000000)) :: uint32)
           = v AND 0x3fffffff"
  unfolding c'_def mask_ffff03000000ffff mask_3f000000 mask_00ffffff mask_fc000000 mask_3fffffff
proof (rule bit_word_eqI)
  fix n assume "n < LENGTH(32)"
  then consider "n < 24" | "24 \<le> n \<and> n < 30" | "30 \<le> n \<and> n < 32"
    by fastforce
  then show "bit (ucast ((drop_bit 16 ((c AND (mask 16 OR push_bit 40 (mask 2) OR push_bit 48 (mask 16))) OR
                push_bit 16 (ucast (push_bit 2 (v AND push_bit 24 (mask 6)) OR (v AND mask 24)))) AND mask 24) OR
              drop_bit 2 (drop_bit 16 ((c AND (mask 16 OR push_bit 40 (mask 2) OR push_bit 48 (mask 16))) OR
                push_bit 16 (ucast (push_bit 2 (v AND push_bit 24 (mask 6)) OR (v AND mask 24)))) AND
                push_bit 26 (mask 6))) :: uint32) n = bit (v AND mask 30) n"
    by cases (auto simp: bit_simps)
qed

lemma Uint16_PutUint16: "Uint16 (PutUint16 v) = v"
  unfolding Uint16_def PutUint16_def
  by (rule bit_word_eqI) (auto simp: bit_simps)

lemma Uint64_PutUint64: "Uint64 (PutUint64 v) = v"
proof (rule bit_word_eqI)
  fix n assume "n < LENGTH(64)"
  then consider "n < 8" | "8 \<le> n \<and> n < 16" | "16 \<le> n \<and> n < 24" | "24 \<le> n \<and> n < 32"
    | "32 \<le> n \<and> n < 40" | "40 \<le> n \<and> n < 48" | "48 \<le> n \<and> n < 56" | "56 \<le> n \<and> n < 64"
    by fastforce
  then show "bit (Uint64 (PutUint64 v)) n = bit v n"
    by cases (auto simp add: Uint64_def PutUint64_def bit_simps)
qed

lemma Uint16_PutUint64_hd:
  "Uint16 (take 2 (PutUint64 v)) = ucast (drop_bit 48 v)"
proof (rule bit_word_eqI)
  fix n assume "n < LENGTH(16)"
  then consider "n < 8" | "8 \<le> n \<and> n < 16"
    by fastforce
  then show "bit (Uint16 (take 2 (PutUint64 v))) n = bit (ucast (drop_bit 48 v) :: uint16) n"
    by cases (auto simp add: Uint16_def PutUint64_def bit_simps)
qed

lemma repack_variant:
  fixes c :: uint64 and cs nr :: uint16
  shows "drop_bit 61 ((c AND 0xe000ffffffff0000) OR push_bit 48 (ucast (cs AND 0x1fff)) OR ucast nr)
           = drop_bit 61 c"
  unfolding mask_e000ffffffff0000 mask_1fff
  by (rule bit_word_eqI) (auto simp: bit_simps dest: bit_imp_le_length)

lemma repack_node:
  fixes c :: uint64 and cs nr :: uint16
  shows "take_bit 32 (drop_bit 16 ((c AND 0xe000ffffffff0000) OR push_bit 48 (ucast cs) OR ucast nr))
           = take_bit 32 (drop_bit 16 c)"
  unfolding mask_e000ffffffff0000
  by (rule bit_word_eqI) (auto simp: bit_simps dest: bit_imp_le_length)

lemma repack_clockSeq:
  fixes c :: uint64 and cs nr :: uint16
  shows "(ucast (drop_bit 48 ((c AND 0xe000ffffffff0000) OR push_bit 48 (ucast (cs AND 0x1fff)) OR ucast nr)) :: uint16) AND 0x1fff
           = cs AND 0x1fff"
  unfolding mask_e000ffffffff0000 mask_1fff
  by (rule bit_word_eqI) (auto simp: bit_simps dest: bit_imp_le_length)

lemma setnode_keeps:
  fixes c :: uint64 and v :: uint32
  shows "((c AND 0xffff03000000ffff) OR
            push_bit 16 (ucast (push_bit 2 (v AND 0x3f000000) OR (v AND 0x00ffffff)) :: uint64))
          AND 0xffff03000000ffff = c AND 0xffff03000000ffff"
  unfolding mask_ffff03000000ffff mask_3f000000 mask_00ffffff
proof (rule bit_word_eqI)
  fix n assume "n < LENGTH(64)"
  then consider "n < 16" | "16 \<le> n \<and> n < 40" | "40 \<le> n \<and> n < 42" | "42 \<le> n \<and> n < 48"
    | "48 \<le> n \<and> n < 64"
    by fastforce
  then show "bit (((c AND (mask 16 OR push_bit 40 (mask 2) OR push_bit 48 (mask 16))) OR
      push_bit 16 (ucast (push_bit 2 (v AND push_bit 24 (mask 6)) OR (v AND mask 24)))) AND
     (mask 16 OR push_bit 40 (mask 2) OR push_bit 48 (mask 16))) n =
     bit (c AND (mask 16 OR push_bit 40 (mask 2) OR push_bit 48 (mask 16))) n"
    by cases (auto simp: bit_simps)
qed

lemma node_take_bit:
  fixes x :: uint64
  shows "(ucast ((x AND 0x00ffffff) OR drop_bit 2 (x AND 0xfc000000)) :: uint32)
      = ucast ((take_bit 32 x AND 0x00ffffff) OR drop_bit 2 (take_bit 32 x AND 0xfc000000))"
  unfolding mask_00ffffff mask_fc000000
  by (rule bit_word_eqI) (auto simp: bit_simps dest: bit_imp_le_length)

lemma node_depends:
  fixes c d :: uint64
  assumes "take_bit 32 (drop_bit 16 c) = take_bit 32 (drop_bit 16 d)"
  shows "(ucast ((drop_bit 16 c AND 0x00ffffff) OR drop_bit 2 (drop_bit 16 c AND 0xfc000000)) :: uint32)
       = ucast ((drop_bit 16 d AND 0x00ffffff) OR drop_bit 2 (drop_bit 16 d AND 0xfc000000))"
  using node_take_bit [of "drop_bit 16 c"] node_take_bit [of "drop_bit 16 d"] assms by simp

section \<open>The layout of a generated identifier\<close>

lemma length_store: "off + length bs \<le> length xs \<Longrightarrow> length (store off bs xs) = length xs"
  by (simp add: store_def)

lemma slice_16:
  "length u = 16 \<Longrightarrow> slice u 6 8 = Some (take 2 (drop 6 u))"
  "length u = 16 \<Longrightarrow> slice u 8 10 = Some (take 2 (drop 8 u))"
  "length u = 16 \<Longrightarrow> slice u 8 16 = Some (take 8 (drop 8 u))"
  by (simp_all add: slice_def)

lemma replicate16: "replicate 16 x = [x,x,x,x,x,x,x,x,x,x,x,x,x,x,x,x]"
  by (simp add: numeral_eq_Suc)

lemma uuid_layout:
  "put_timestamp now (store 8 (PutUint64 c) (replicate 16 0)) =
     PutUint32 (ucast (fromUnixNano now AND 0xffffffff)) @
     PutUint16 (ucast (signed_drop_bit 32 (fromUnixNano now) AND 0xffff)) @
     PutUint16 (ucast (signed_drop_bit 48 (fromUnixNano now) AND 0x0fff) OR push_bit 12 1) @
     PutUint64 c"
  by (simp add: put_timestamp_def store_def replicate16 PutUint64_def PutUint32_def PutUint16_def Let_def)

lemma length_Put [simp]:
  "length (PutUint16 a) = 2" "length (PutUint32 b) = 4" "length (PutUint64 c) = 8"
  by (simp_all add: PutUint16_def PutUint32_def PutUint64_def)

text \<open>The identifier built from a repacked state word and a time stamp.\<close>

lemma uuid_length: "length (put_timestamp now (store 8 (PutUint64 c) (replicate 16 0))) = 16"
  by (simp add: uuid_layout)

lemma uuid_tail: "drop 8 (put_timestamp now (store 8 (PutUint64 c) (replicate 16 0))) = PutUint64 c"
  by (simp add: uuid_layout)

lemma uuid_version_field:
  "take 2 (drop 6 (put_timestamp now (store 8 (PutUint64 c) (replicate 16 0)))) =
     PutUint16 (ucast (signed_drop_bit 48 (fromUnixNano now) AND 0x0fff) OR push_bit 12 1)"
  by (simp add: uuid_layout)

lemma version_bits:
  fixes x :: int64
  shows "drop_bit 12 (((ucast (x AND 0x0fff) :: uint16) OR push_bit 12 1) AND 0xf000) = 1"
  unfolding mask_0fff mask_f000
  by (rule bit_word_eqI) (auto simp: bit_simps)

lemma variant_bits:
  fixes c :: uint64
  shows "drop_bit 13 ((ucast (drop_bit 48 c) :: uint16) AND 0xe000) = ucast (drop_bit 61 c)"
  unfolding mask_e000
  by (rule bit_word_eqI) (auto simp: bit_simps dest: bit_imp_le_length)

lemma Version_uuid:
  "Version (put_timestamp now (store 8 (PutUint64 c) (replicate 16 0))) = Some 1"
proof -
  let ?w = "(ucast (signed_drop_bit 48 (fromUnixNano now) AND 0x0fff) :: uint16) OR push_bit 12 1"
  have s: "slice (put_timestamp now (store 8 (PutUint64 c) (replicate 16 0))) 6 8 = Some (PutUint16 ?w)"
    by (simp add: slice_16 uuid_length uuid_version_field)
  have h: "drop_bit 12 (Uint16 (PutUint16 ?w) AND 0xf000) = 1"
    unfolding Uint16_PutUint16 by (rule version_bits)
  show ?thesis
    unfolding Version_def s by (simp only: option.case h) simp
qed

lemma Variant_uuid:
  "Variant (put_timestamp now (store 8 (PutUint64 c) (replicate 16 0))) =
     Some (uint (drop_bit 61 c))"
proof -
  have s: "slice (put_timestamp now (store 8 (PutUint64 c) (replicate 16 0))) 8 10 =
      Some (take 2 (PutUint64 c))"
    by (simp add: slice_16 uuid_length uuid_tail)
  have h: "drop_bit 13 (Uint16 (take 2 (PutUint64 c)) AND 0xe000) = ucast (drop_bit 61 c)"
    unfolding Uint16_PutUint64_hd by (rule variant_bits)
  have u: "uint (ucast (drop_bit 61 c) :: uint16) = uint (drop_bit 61 c)"
    by (rule bit_eqI) (auto simp: bit_simps dest: bit_imp_le_length)
  show ?thesis
    unfolding Variant_def s by (simp only: option.case h u)
qed

lemma UUID_NodeId_uuid:
  "UUID_NodeId (put_timestamp now (store 8 (PutUint64 c) (replicate 16 0))) =
     Some (ucast ((drop_bit 16 c AND 0x00ffffff) OR drop_bit 2 (drop_bit 16 c AND 0xfc000000)))"
proof -
  have s: "slice (put_timestamp now (store 8 (PutUint64 c) (replicate 16 0))) 8 16 =
      Some (PutUint64 c)"
    by (simp add: slice_16 uuid_length uuid_tail)
  show ?thesis
    unfolding UUID_NodeId_def s by (simp only: option.case Uint64_PutUint64 Let_def)
qed

lemma bit_byte_high: "8 \<le> k \<Longrightarrow> \<not> bit (w :: byte) k"
  using bit_imp_le_length [of w k] by auto

lemma Uint64_top: "drop_bit 61 (Uint64 b) = ucast (drop_bit 5 (b ! 0))"
  unfolding Uint64_def
proof (rule bit_word_eqI)
  fix n assume "n < LENGTH(64)"
  show "bit (drop_bit 61 (ucast (b ! 7) OR push_bit 8 (ucast (b ! 6)) OR push_bit 16 (ucast (b ! 5))
     OR push_bit 24 (ucast (b ! 4)) OR push_bit 32 (ucast (b ! 3)) OR push_bit 40 (ucast (b ! 2))
     OR push_bit 48 (ucast (b ! 1)) OR push_bit 56 (ucast (b ! 0)) :: uint64)) n
     = bit (ucast (drop_bit 5 (b ! 0)) :: uint64) n"
  proof (cases "n < 3")
    case True
    then show ?thesis by (simp add: bit_simps bit_byte_high)
  next
    case False
    then show ?thesis by (simp add: bit_simps bit_byte_high)
  qed
qed

lemma init_variant_byte:
  fixes x :: byte
  shows "drop_bit 5 ((x AND 0x1f) OR push_bit 5 1) = 1"
proof -
  have "(0x1f :: byte) = mask 5" by (simp add: mask_eq_exp_minus_1)
  then show ?thesis
    by (simp only:) (rule bit_word_eqI, auto simp: bit_simps)
qed

section \<open>The invariant of the generator state\<close>

lemma init_retry_length:
  "n \<le> 8 \<Longrightarrow> length buf = 8 \<Longrightarrow> init_retry rd i n buf = (n', buf') \<Longrightarrow> length buf' = 8"
proof (induction rd i n buf rule: init_retry.induct)
  case (1 rd i n buf)
  show ?case
  proof (cases "i < 8 \<and> n < 8")
    case True
    let ?chunk = "take (8 - n) (rd (Suc i))"
    have r: "init_retry rd (Suc i) (n + length ?chunk) (store n ?chunk buf) = (n', buf')"
      using "1.prems"(3) True by (subst (asm) init_retry.simps) (simp add: Let_def)
    have l: "length (store n ?chunk buf) = 8"
      using "1.prems"(1,2) by (simp add: store_def)
    have n: "n + length ?chunk \<le> 8"
      using "1.prems"(1) by simp
    show ?thesis
      using "1.IH" [OF True refl n l r] .
  next
    case False
    then have "init_retry rd i n buf = (n, buf)"
      by (subst init_retry.simps) auto
    with "1.prems" show ?thesis by simp
  qed
qed

lemma init_inv: "init rd = Some s \<Longrightarrow> gen_inv s"
proof -
  assume a: "init rd = Some s"
  obtain n buf where r: "init_retry rd 0 (length (take 8 (rd 0))) (store 0 (take 8 (rd 0)) (replicate 8 0)) = (n, buf)"
    by (cases "init_retry rd 0 (length (take 8 (rd 0))) (store 0 (take 8 (rd 0)) (replicate 8 0))")
  have l0: "length (store 0 (take 8 (rd 0)) (replicate 8 (0::byte))) = 8"
    by (simp add: store_def)
  have l: "length buf = 8"
    using init_retry_length [OF _ l0 r] by simp
  let ?buf1 = "buf[0 := (buf ! 0 AND 0x1f) OR push_bit 5 1]"
  let ?buf2 = "?buf1[2 := push_bit 2 (?buf1 ! 2) OR 0x03]"
  from a r have s: "s = \<lparr> randBuf = ?buf2 @ replicate (nat randBufCap - 8) 0,
                      randBufOffset = 0,
                      clockSeqAndNode = Uint64 ?buf2,
                      clockSeq = ucast (drop_bit 48 (Uint64 ?buf2) AND 0x1fff),
                      nodeRand = ucast (Uint64 ?buf2 AND 0xffff) \<rparr>"
    by (simp add: init_def Let_def split: if_splits)
  have b0: "?buf2 ! 0 = (buf ! 0 AND 0x1f) OR push_bit 5 1"
    using l by simp
  have "drop_bit 61 (Uint64 ?buf2) = 1"
    unfolding Uint64_top b0 init_variant_byte by simp
  then show "gen_inv s"
    unfolding s gen_inv_def using l by (simp add: randBufCap_def)
qed

lemma drop61_and:
  fixes x :: uint64
  shows "drop_bit 61 (x AND 0xffff03000000ffff) = drop_bit 61 x"
  unfolding mask_ffff03000000ffff
proof (rule bit_word_eqI)
  fix n assume "n < LENGTH(64)"
  show "bit (drop_bit 61 (x AND (mask 16 OR push_bit 40 (mask 2) OR push_bit 48 (mask 16)))) n
      = bit (drop_bit 61 x) n"
  proof (cases "n < 3")
    case True
    then show ?thesis by (simp add: bit_simps)
  next
    case False
    then have "\<not> 61 + n < LENGTH(64)" by simp
    then have "\<not> bit x (61 + n)" using bit_imp_le_length by blast
    then show ?thesis by (simp add: bit_simps)
  qed
qed

lemma drop61_keeps:
  fixes c d :: uint64
  assumes "c AND 0xffff03000000ffff = d AND 0xffff03000000ffff"
  shows "drop_bit 61 c = drop_bit 61 d"
  using drop61_and [of c] drop61_and [of d] assms by simp

lemma SetNodeId_clockSeqAndNode:
  "clockSeqAndNode (snd (SetNodeId s v)) = (clockSeqAndNode s AND 0xffff03000000ffff) OR
     push_bit 16 (ucast (push_bit 2 (v AND 0x3f000000) OR (v AND 0x00ffffff)))"
  unfolding SetNodeId_def Let_def by simp

lemma SetNodeId_others:
  "randBuf (snd (SetNodeId s v)) = randBuf s"
  "randBufOffset (snd (SetNodeId s v)) = randBufOffset s"
  "clockSeq (snd (SetNodeId s v)) = clockSeq s"
  "nodeRand (snd (SetNodeId s v)) = nodeRand s"
  unfolding SetNodeId_def Let_def by simp_all

lemma SetNodeId_inv: "gen_inv s \<Longrightarrow> gen_inv (snd (SetNodeId s v))"
  unfolding gen_inv_def SetNodeId_others SetNodeId_clockSeqAndNode
  using drop61_keeps [OF setnode_keeps [of "clockSeqAndNode s" v]]
  by (simp only:)

lemma New_fst:
  "fst (New s r now) = put_timestamp now (store 8 (PutUint64 (clockSeqAndNode (snd (New s r now)))) (replicate 16 0))"
  unfolding New_def Let_def by simp

lemma New_clockSeq: "clockSeq (snd (New s r now)) = (clockSeq s + 1) AND 0x1fff"
  unfolding New_def Let_def by simp

lemma New_clockSeqAndNode:
  "clockSeqAndNode (snd (New s r now)) =
     (clockSeqAndNode s AND 0xe000ffffffff0000) OR push_bit 48 (ucast ((clockSeq s + 1) AND 0x1fff)) OR
     ucast (nodeRand (snd (New s r now)))"
  unfolding New_def Let_def by simp

lemma New_buffer:
  "randBuf (snd (New s r now)) = randBuf s" "randBufOffset (snd (New s r now)) = randBufOffset s"
  unfolding New_def Let_def by simp_all

lemma New_inv: "gen_inv s \<Longrightarrow> gen_inv (snd (New s r now))"
  unfolding gen_inv_def New_buffer New_clockSeqAndNode repack_variant .

lemma ucast_and_1fff:
  fixes x :: uint32
  shows "(ucast (x AND 0x1fff) :: uint16) = ucast x AND 0x1fff"
  unfolding mask_1fff
  by (rule bit_word_eqI) (auto simp: bit_simps)

lemma NewCrypto_succeeds:
  assumes "gen_inv s"
  shows "\<exists>val buf off.
     NewCrypto s rd now =
       Some (put_timestamp now (store 8 (PutUint64
               ((clockSeqAndNode s AND 0xe000ffffffff0000) OR
                push_bit 48 (ucast (ucast (drop_bit 16 val AND 0x1fff) :: uint16)) OR
                ucast (ucast (val AND 0xffff) :: uint16))) (replicate 16 0)),
             s\<lparr>randBuf := buf, randBufOffset := off,
               clockSeq := ucast (drop_bit 16 val AND 0x1fff),
               nodeRand := ucast (val AND 0xffff),
               clockSeqAndNode := (clockSeqAndNode s AND 0xe000ffffffff0000) OR
                push_bit 48 (ucast (ucast (drop_bit 16 (val :: uint32) AND 0x1fff) :: uint16)) OR
                ucast (ucast (val AND 0xffff) :: uint16)\<rparr>) \<and>
     int (length buf) = randBufCap \<and> 0 \<le> off \<and> off \<le> randBufCap - 4"
proof -
  let ?off = "randBufOffset s"
  let ?got = "take 4 rd"
  let ?buf = "store (nat ?off) ?got (randBuf s)"
  let ?off1 = "?off + (int (length ?got) - 4)"
  let ?off2 = "if ?off1 < 0 then 0 else ?off1"
  let ?off3 = "?off2 + 4"
  let ?off4 = "if ?off3 > randBufCap - 4 then 0 else ?off3"
  from assms have len: "int (length (randBuf s)) = 256" and lo: "0 \<le> ?off" and hi: "?off \<le> 252"
    by (simp_all add: gen_inv_def randBufCap_def)
  have s1: "slice (randBuf s) ?off (?off + 4) = Some (take 4 (drop (nat ?off) (randBuf s)))"
    using len lo hi by (simp add: slice_def)
  have lb: "int (length ?buf) = 256"
    using len lo hi by (simp add: store_def) 
  have o2: "0 \<le> ?off2 \<and> ?off2 \<le> 252"
    using lo hi by (auto simp: min_def)
  have s2: "slice ?buf ?off2 (?off2 + 4) = Some (take 4 (drop (nat ?off2) ?buf))"
    using lb o2 unfolding slice_def by (simp only: Let_def) auto
  have o4: "0 \<le> ?off4 \<and> ?off4 \<le> randBufCap - 4"
    using o2 by (simp add: randBufCap_def)
  show ?thesis
    apply (rule exI [of _ "Uint32 (take 4 (drop (nat ?off2) ?buf))"])
    apply (rule exI [of _ ?buf])
    apply (rule exI [of _ ?off4])
    apply (rule conjI)
     apply (unfold NewCrypto_def Let_def s1 option.case s2)
     apply (rule refl)
    using lb o4 apply (simp only: randBufCap_def)
    done
qed

section \<open>Reachable states keep the invariant\<close>

lemma NewCrypto_shape:
  assumes "gen_inv s"
  shows "\<exists>cs nr s'.
     NewCrypto s rd now =
       Some (put_timestamp now (store 8 (PutUint64 (clockSeqAndNode s')) (replicate 16 0)), s') \<and>
     clockSeqAndNode s' =
       (clockSeqAndNode s AND 0xe000ffffffff0000) OR push_bit 48 (ucast (cs AND 0x1fff :: uint16)) OR
       ucast (nr :: uint16) \<and>
     int (length (randBuf s')) = randBufCap \<and> 0 \<le> randBufOffset s' \<and>
     randBufOffset s' \<le> randBufCap - 4"
proof -
  from NewCrypto_succeeds [OF assms, of rd now] obtain val buf off where
    e: "NewCrypto s rd now =
       Some (put_timestamp now (store 8 (PutUint64
               ((clockSeqAndNode s AND 0xe000ffffffff0000) OR
                push_bit 48 (ucast (ucast (drop_bit 16 val AND 0x1fff) :: uint16)) OR
                ucast (ucast (val AND 0xffff) :: uint16))) (replicate 16 0)),
             s\<lparr>randBuf := buf, randBufOffset := off,
               clockSeq := ucast (drop_bit 16 val AND 0x1fff),
               nodeRand := ucast (val AND 0xffff),
               clockSeqAndNode := (clockSeqAndNode s AND 0xe000ffffffff0000) OR
                push_bit 48 (ucast (ucast (drop_bit 16 (val :: uint32) AND 0x1fff) :: uint16)) OR
                ucast (ucast (val AND 0xffff) :: uint16)\<rparr>)"
    and b: "int (length buf) = randBufCap" "0 \<le> off" "off \<le> randBufCap - 4"
    by blast
  let ?c = "(clockSeqAndNode s AND 0xe000ffffffff0000) OR
                push_bit 48 (ucast (ucast (drop_bit 16 (val :: uint32) AND 0x1fff) :: uint16)) OR
                ucast (ucast (val AND 0xffff) :: uint16)"
  let ?s' = "s\<lparr>randBuf := buf, randBufOffset := off,
               clockSeq := ucast (drop_bit 16 val AND 0x1fff),
               nodeRand := ucast (val AND 0xffff),
               clockSeqAndNode := ?c\<rparr>"
  have c: "clockSeqAndNode ?s' = ?c" by simp
  have r: "randBuf ?s' = buf" "randBufOffset ?s' = off" by simp_all
  have e': "NewCrypto s rd now =
       Some (put_timestamp now (store 8 (PutUint64 (clockSeqAndNode ?s')) (replicate 16 0)), ?s')"
    unfolding c by (rule e)
  have c': "clockSeqAndNode ?s' =
       (clockSeqAndNode s AND 0xe000ffffffff0000) OR
       push_bit 48 (ucast ((ucast (drop_bit 16 val) :: uint16) AND 0x1fff)) OR
       ucast (ucast (val AND 0xffff) :: uint16)"
    using c by (simp only: ucast_and_1fff)
  show ?thesis
    apply (rule exI [of _ "ucast (drop_bit 16 val)"])
    apply (rule exI [of _ "ucast (val AND 0xffff)"])
    apply (rule exI [of _ ?s'])
    apply (intro conjI)
        apply (rule e')
       apply (rule c')
      apply (simp only: r b)+
    done
qed

lemma NewCrypto_inv:
  assumes "gen_inv s" and "NewCrypto s rd now = Some (u, s')"
  shows "gen_inv s'"
proof -
  from NewCrypto_shape [OF assms(1), of rd now] assms(2) obtain cs nr where
    c: "clockSeqAndNode s' =
       (clockSeqAndNode s AND 0xe000ffffffff0000) OR push_bit 48 (ucast (cs AND 0x1fff :: uint16)) OR
       ucast (nr :: uint16)"
    and b: "int (length (randBuf s')) = randBufCap" "0 \<le> randBufOffset s'"
      "randBufOffset s' \<le> randBufCap - 4"
    by auto
  have "drop_bit 61 (clockSeqAndNode s') = drop_bit 61 (clockSeqAndNode s)"
    unfolding c by (rule repack_variant)
  with assms(1) b show ?thesis
    unfolding gen_inv_def by (simp only:)
qed

lemma reachable_inv: "reachable s \<Longrightarrow> gen_inv s"
proof (induction rule: reachable.induct)
  case (reach_init rd s)
  then show ?case by (rule init_inv)
next
  case (reach_SetNodeId s v)
  then show ?case by (intro SetNodeId_inv)
next
  case (reach_New s r now)
  then show ?case by (intro New_inv)
next
  case (reach_NewCrypto s rd now u s')
  then show ?case using NewCrypto_inv by blast
qed

lemma init_retry_done: "init_retry rd i 8 buf = (8, buf)"
  by (subst init_retry.simps) simp

lemma init_zero_source: "init zero_source = Some zero_state"
proof -
  have a: "take 8 (zero_source 0) = [0, 0, 0, 0, 0, 0, 0, 0]"
    by (simp add: zero_source_def numeral_eq_Suc)
  have st: "store 0 [0, 0, 0, 0, 0, 0, 0, 0] (replicate 8 (0 :: byte)) = [0, 0, 0, 0, 0, 0, 0, 0]"
    by (simp add: store_def)
  have l: "length [0 :: byte, 0, 0, 0, 0, 0, 0, 0] = 8"
    by simp
  have u: "Uint64 [0x20, 0, 0x03, 0, 0, 0, 0, 0] = 0x2000030000000000"
    by (simp add: Uint64_def)
  have n: "nat randBufCap - 8 = 248"
    by (simp add: randBufCap_def)
  show ?thesis
    unfolding init_def a st l init_retry_done Let_def zero_state_def
    by (simp add: u n)
qed

section \<open>Version and variant of generated identifiers\<close>

lemma uuid_byte8:
  "put_timestamp now (store 8 (PutUint64 c) (replicate 16 0)) ! 8 = ucast (drop_bit 56 c)"
  unfolding uuid_layout by (simp add: nth_append PutUint64_def PutUint32_def PutUint16_def)

lemma byte8_top:
  fixes c :: uint64
  shows "drop_bit 5 (ucast (drop_bit 56 c) :: byte) = ucast (drop_bit 61 c)"
  by (rule bit_word_eqI) (auto simp: bit_simps dest: bit_imp_le_length)

lemma uuid_byte8_top:
  "drop_bit 61 c = 1 \<Longrightarrow>
   drop_bit 5 (put_timestamp now (store 8 (PutUint64 c) (replicate 16 0)) ! 8) = (1 :: byte)"
  unfolding uuid_byte8 byte8_top by simp

lemma Variant_uuid_1:
  "drop_bit 61 c = 1 \<Longrightarrow> Variant (put_timestamp now (store 8 (PutUint64 c) (replicate 16 0))) = Some 1"
  unfolding Variant_uuid by simp

text \<open>
  Claim C1. The claim has every identifier of \<open>New\<close> and \<open>NewCrypto\<close> carry the bit
  pattern \<open>100\<close> in the top three bits of byte 8. What the code gives, from every
  reachable state, is the pattern \<open>001\<close>: byte 8 shifted right by five is 1, since
  \<open>init\<close> puts \<open>1<<5\<close> there and every repack keeps the top three bits of the state.
\<close>

theorem C1_generated_variant_bits:
  assumes "reachable s"
  shows "drop_bit 5 (fst (New s r now) ! 8) = (1 :: byte) \<and>
         (\<exists>u s'. NewCrypto s rd now = Some (u, s') \<and> drop_bit 5 (u ! 8) = (1 :: byte))"
proof -
  have i: "gen_inv s" using assms by (rule reachable_inv)
  have n: "drop_bit 61 (clockSeqAndNode (snd (New s r now))) = 1"
    using New_inv [OF i, of r now] by (simp only: gen_inv_def)
  have a: "drop_bit 5 (fst (New s r now) ! 8) = (1 :: byte)"
    unfolding New_fst by (rule uuid_byte8_top [OF n])
  from NewCrypto_shape [OF i, of rd now] obtain s' where
    e: "NewCrypto s rd now =
       Some (put_timestamp now (store 8 (PutUint64 (clockSeqAndNode s')) (replicate 16 0)), s')"
    by blast
  have "gen_inv s'" using NewCrypto_inv [OF i e] .
  then have "drop_bit 61 (clockSeqAndNode s') = 1" by (simp only: gen_inv_def)
  then have "drop_bit 5 (put_timestamp now (store 8 (PutUint64 (clockSeqAndNode s')) (replicate 16 0)) ! 8) = (1 :: byte)"
    by (rule uuid_byte8_top)
  with e a show ?thesis by blast
qed

text \<open>The state that \<open>init\<close> leaves on a source of zero bytes is reachable.\<close>

theorem C1_generated_variant_bits_witness:
  "reachable zero_state \<and>
   drop_bit 5 (fst (New zero_state 0 0) ! 8) = (1 :: byte) \<and>
   (\<exists>u s'. NewCrypto zero_state [] 0 = Some (u, s') \<and> drop_bit 5 (u ! 8) = (1 :: byte))"
  using C1_generated_variant_bits [OF reach_init [OF init_zero_source], of 0 0 "[]"]
    reach_init [OF init_zero_source]
  by blast

text \<open>
  Claim C2. From every reachable generator state, the identifier that \<open>New\<close> returns
  and the one that \<open>NewCrypto\<close> returns (it does return one) have \<open>Version() = 1\<close> and
  \<open>Variant() = 1\<close>.
\<close>

theorem C2_generated_version_variant:
  assumes "reachable s"
  shows "Version (fst (New s r now)) = Some 1 \<and> Variant (fst (New s r now)) = Some 1 \<and>
         (\<exists>u s'. NewCrypto s rd now = Some (u, s') \<and> Version u = Some 1 \<and> Variant u = Some 1)"
proof -
  have i: "gen_inv s" using assms by (rule reachable_inv)
  have n: "drop_bit 61 (clockSeqAndNode (snd (New s r now))) = 1"
    using New_inv [OF i, of r now] by (simp only: gen_inv_def)
  have a: "Version (fst (New s r now)) = Some 1"
    unfolding New_fst by (rule Version_uuid)
  have b: "Variant (fst (New s r now)) = Some 1"
    unfolding New_fst by (rule Variant_uuid_1 [OF n])
  from NewCrypto_shape [OF i, of rd now] obtain s' where
    e: "NewCrypto s rd now =
       Some (put_timestamp now (store 8 (PutUint64 (clockSeqAndNode s')) (replicate 16 0)), s')"
    by blast
  have "gen_inv s'" using NewCrypto_inv [OF i e] .
  then have "drop_bit 61 (clockSeqAndNode s') = 1" by (simp only: gen_inv_def)
  then have "Variant (put_timestamp now (store 8 (PutUint64 (clockSeqAndNode s')) (replicate 16 0))) = Some 1"
    by (rule Variant_uuid_1)
  with e a b Version_uuid show ?thesis by blast
qed

text \<open>The same at the state that \<open>init\<close> leaves on a source of zero bytes.\<close>

theorem C2_generated_version_variant_witness:
  "reachable zero_state \<and>
   Version (fst (New zero_state 0 0)) = Some 1 \<and> Variant (fst (New zero_state 0 0)) = Some 1 \<and>
   (\<exists>u s'. NewCrypto zero_state [] 0 = Some (u, s') \<and> Version u = Some 1 \<and> Variant u = Some 1)"
  using C2_generated_version_variant [OF reach_init [OF init_zero_source], of 0 0 "[]"]
    reach_init [OF init_zero_source]
  by blast

section \<open>The clock sequence\<close>

lemma unat_and_1fff:
  fixes w :: uint16
  shows "unat (w AND 0x1fff) = unat w mod 8192"
proof -
  have "w AND mask 13 = take_bit 13 w" by (simp only: take_bit_eq_mask)
  then have "unat (w AND mask 13) = take_bit 13 (unat w)"
    by (simp only: unsigned_take_bit_eq)
  then have "unat (w AND mask 13) = unat w mod 2 ^ 13"
    by (simp only: take_bit_eq_mod)
  then show ?thesis
    by (simp only: mask_1fff) simp
qed

lemma unat_inc16:
  fixes w :: uint16
  shows "unat (w + 1) = (unat w + 1) mod 65536"
  by (simp add: unat_word_ariths)

lemma clockSeq_step:
  fixes w :: uint16
  shows "unat ((w + 1) AND 0x1fff) = (unat w + 1) mod 8192"
proof -
  have "unat ((w + 1) AND 0x1fff) = unat (w + 1) mod 8192"
    by (rule unat_and_1fff)
  also have "\<dots> = ((unat w + 1) mod 65536) mod 8192"
    by (simp only: unat_inc16)
  also have "\<dots> = (unat w + 1) mod 8192"
    by (rule mod_mod_cancel) simp
  finally show ?thesis .
qed

lemma clockSeq_changes:
  fixes x :: uint16
  shows "((x AND 0x1fff) + 1) AND 0x1fff \<noteq> x AND 0x1fff"
proof
  assume e: "((x AND 0x1fff) + 1) AND 0x1fff = x AND 0x1fff"
  define n where "n = unat (x AND 0x1fff)"
  have a: "unat (((x AND 0x1fff) + 1) AND 0x1fff) = (n + 1) mod 8192"
    unfolding n_def by (rule clockSeq_step)
  have b: "n < 8192"
    unfolding n_def unat_and_1fff by simp
  from e a have m: "(n + 1) mod 8192 = n"
    unfolding n_def by (simp only:)
  show False
  proof (cases "n + 1 < 8192")
    case True
    then have "(n + 1) mod 8192 = n + 1" by (rule mod_less)
    with m show False by simp
  next
    case False
    with b have "n + 1 = 8192" by simp
    then have "(n + 1) mod 8192 = 0" by simp
    with m \<open>n + 1 = 8192\<close> show False by simp
  qed
qed

lemma New_clock_bytes:
  "Uint16 (take 2 (drop 8 (fst (New s r now)))) AND 0x1fff = (clockSeq s + 1) AND 0x1fff"
proof -
  have "take 2 (drop 8 (fst (New s r now))) = take 2 (PutUint64 (clockSeqAndNode (snd (New s r now))))"
    unfolding New_fst uuid_tail by (rule refl)
  then have "Uint16 (take 2 (drop 8 (fst (New s r now)))) =
      ucast (drop_bit 48 (clockSeqAndNode (snd (New s r now))))"
    by (simp only: Uint16_PutUint64_hd)
  then show ?thesis
    by (simp only: New_clockSeqAndNode repack_clockSeq)
qed

text \<open>
  Claim C3. From any generator state, whatever the two time stamps and whatever the
  pseudo-random source gives, two consecutive calls of \<open>New\<close> return different
  identifiers: already their clock-sequence bytes 8 and 9 differ, and each call leaves
  the clock sequence incremented modulo 8192.
\<close>

theorem C3_consecutive_New_differ:
  "fst (New s r1 t1) \<noteq> fst (New (snd (New s r1 t1)) r2 t2) \<and>
   take 2 (drop 8 (fst (New s r1 t1))) \<noteq> take 2 (drop 8 (fst (New (snd (New s r1 t1)) r2 t2))) \<and>
   unat (clockSeq (snd (New s r1 t1))) = (unat (clockSeq s) + 1) mod 8192"
proof -
  let ?s1 = "snd (New s r1 t1)"
  let ?u1 = "fst (New s r1 t1)"
  let ?u2 = "fst (New ?s1 r2 t2)"
  have c1: "Uint16 (take 2 (drop 8 ?u1)) AND 0x1fff = (clockSeq s + 1) AND 0x1fff"
    by (rule New_clock_bytes)
  have c2: "Uint16 (take 2 (drop 8 ?u2)) AND 0x1fff = (((clockSeq s + 1) AND 0x1fff) + 1) AND 0x1fff"
    using New_clock_bytes [of ?s1 r2 t2] by (simp only: New_clockSeq)
  have d: "take 2 (drop 8 ?u1) \<noteq> take 2 (drop 8 ?u2)"
  proof
    assume "take 2 (drop 8 ?u1) = take 2 (drop 8 ?u2)"
    then have "Uint16 (take 2 (drop 8 ?u1)) AND 0x1fff = Uint16 (take 2 (drop 8 ?u2)) AND 0x1fff"
      by (simp only:)
    then have "(((clockSeq s + 1) AND 0x1fff) + 1) AND 0x1fff = (clockSeq s + 1) AND 0x1fff"
      by (simp only: c1 c2)
    then show False using clockSeq_changes [of "clockSeq s + 1"] by (simp only:)
  qed
  then have "?u1 \<noteq> ?u2" by auto
  moreover have "unat (clockSeq ?s1) = (unat (clockSeq s) + 1) mod 8192"
    unfolding New_clockSeq by (rule clockSeq_step)
  ultimately show ?thesis using d by (simp only: simp_thms)
qed

section \<open>The node id\<close>

lemma NodeId_alt:
  "NodeId s = ucast ((drop_bit 16 (clockSeqAndNode s) AND 0x00ffffff) OR
                     drop_bit 2 (drop_bit 16 (clockSeqAndNode s) AND 0xfc000000))"
  unfolding NodeId_def Let_def by (rule refl)

lemma SetNodeId_NodeId: "NodeId (snd (SetNodeId s v)) = v AND 0x3fffffff"
  unfolding NodeId_alt SetNodeId_clockSeqAndNode by (rule setnode_node)

lemma SetNodeId_error:
  "fst (SetNodeId s v) = (if drop_bit 30 v \<noteq> 0 then Some (ErrDiscardedBits v) else None)"
  unfolding SetNodeId_def Let_def by simp

lemma top2_less:
  fixes v :: uint32
  shows "drop_bit 30 v = 0 \<longleftrightarrow> v < 0x40000000"
proof -
  have u: "unat (drop_bit 30 v) = unat v div 2 ^ 30"
    using unat_drop_bit_eq [of 30 v] drop_bit_eq_div [of 30 "unat v"] by (simp only:)
  have "drop_bit 30 v = 0 \<longleftrightarrow> unat (drop_bit 30 v) = 0"
    by (simp only: unsigned_eq_0_iff)
  also have "\<dots> \<longleftrightarrow> unat v div 2 ^ 30 = 0"
    by (simp only: u)
  also have "\<dots> \<longleftrightarrow> unat v < 1073741824"
    by (simp add: div_eq_0_iff)
  also have "\<dots> \<longleftrightarrow> v < 0x40000000"
    by (simp add: word_less_nat_alt)
  finally show ?thesis .
qed

lemma top2_bits:
  fixes v :: uint32
  shows "drop_bit 30 v = 0 \<longleftrightarrow> \<not> bit v 30 \<and> \<not> bit v 31"
proof
  assume z: "drop_bit 30 v = 0"
  have "bit (drop_bit 30 v) 0 = bit v 30" "bit (drop_bit 30 v) 1 = bit v 31"
    by (simp_all add: bit_simps)
  then show "\<not> bit v 30 \<and> \<not> bit v 31"
    unfolding z by simp
next
  assume a: "\<not> bit v 30 \<and> \<not> bit v 31"
  show "drop_bit 30 v = 0"
  proof (rule bit_word_eqI)
    fix n assume "n < LENGTH(32)"
    consider "n = 0" | "n = 1" | "2 \<le> n" by fastforce
    then show "bit (drop_bit 30 v) n = bit (0 :: uint32) n"
    proof cases
      case 1 with a show ?thesis by (simp add: bit_simps)
    next
      case 2 with a show ?thesis by (simp add: bit_simps)
    next
      case 3
      then have "\<not> 30 + n < LENGTH(32)" by simp
      then have "\<not> bit v (30 + n)" using bit_imp_le_length by blast
      then show ?thesis by (simp add: bit_simps)
    qed
  qed
qed

lemma low30_id:
  fixes v :: uint32
  assumes "v < 0x40000000"
  shows "v AND 0x3fffffff = v"
proof -
  have "v < 2 ^ 30" using assms by simp
  then have "v AND mask 30 = v" by (rule less_mask_eq)
  then show ?thesis by (simp only: mask_3fffffff)
qed

text \<open>
  Claim C5. \<open>SetNodeId v\<close> returns an error exactly when bit 30 or bit 31 of \<open>v\<close> is
  set; in either case \<open>NodeId()\<close> is then \<open>v & 0x3fffffff\<close>, the state word keeps its
  clock sequence and variant bits (63..48), the two marker bits (41..40) and its low 16
  bits, and the variables \<open>clockSeq\<close> and \<open>nodeRand\<close> are unchanged.
\<close>

theorem C5_SetNodeId_truncates:
  "(fst (SetNodeId s v) \<noteq> None) = (bit v 30 \<or> bit v 31) \<and>
   NodeId (snd (SetNodeId s v)) = v AND 0x3fffffff \<and>
   clockSeqAndNode (snd (SetNodeId s v)) AND 0xffff03000000ffff =
     clockSeqAndNode s AND 0xffff03000000ffff \<and>
   clockSeq (snd (SetNodeId s v)) = clockSeq s \<and>
   nodeRand (snd (SetNodeId s v)) = nodeRand s"
proof -
  have e: "(fst (SetNodeId s v) \<noteq> None) = (bit v 30 \<or> bit v 31)"
    unfolding SetNodeId_error using top2_bits [of v] by auto
  have k: "clockSeqAndNode (snd (SetNodeId s v)) AND 0xffff03000000ffff =
     clockSeqAndNode s AND 0xffff03000000ffff"
    unfolding SetNodeId_clockSeqAndNode by (rule setnode_keeps)
  show ?thesis
    using e k SetNodeId_NodeId [of s v] SetNodeId_others(3,4) [of s v]
    by (simp only: simp_thms)
qed

lemma gen_steps_keeps:
  "gen_steps s s' \<Longrightarrow> gen_inv s \<Longrightarrow>
   gen_inv s' \<and> take_bit 32 (drop_bit 16 (clockSeqAndNode s')) =
                take_bit 32 (drop_bit 16 (clockSeqAndNode s))"
proof (induction rule: gen_steps.induct)
  case (gen_refl s)
  then show ?case by simp
next
  case (gen_New s s' r now)
  then have i: "gen_inv s'"
    and k: "take_bit 32 (drop_bit 16 (clockSeqAndNode s')) =
            take_bit 32 (drop_bit 16 (clockSeqAndNode s))"
    by simp_all
  have "take_bit 32 (drop_bit 16 (clockSeqAndNode (snd (New s' r now)))) =
        take_bit 32 (drop_bit 16 (clockSeqAndNode s'))"
    unfolding New_clockSeqAndNode by (rule repack_node)
  with k New_inv [OF i, of r now] show ?case by (simp only: simp_thms)
next
  case (gen_NewCrypto s s' rd now u s'')
  then have i: "gen_inv s'"
    and k: "take_bit 32 (drop_bit 16 (clockSeqAndNode s')) =
            take_bit 32 (drop_bit 16 (clockSeqAndNode s))"
    by simp_all
  from NewCrypto_shape [OF i, of rd now] gen_NewCrypto.hyps(2) obtain cs nr where
    c: "clockSeqAndNode s'' =
       (clockSeqAndNode s' AND 0xe000ffffffff0000) OR push_bit 48 (ucast (cs AND 0x1fff :: uint16)) OR
       ucast (nr :: uint16)"
    by auto
  have "take_bit 32 (drop_bit 16 (clockSeqAndNode s'')) =
        take_bit 32 (drop_bit 16 (clockSeqAndNode s'))"
    unfolding c by (rule repack_node)
  with k NewCrypto_inv [OF i gen_NewCrypto.hyps(2)] show ?case by (simp only: simp_thms)
qed

lemma node_of_uuid:
  "UUID_NodeId (put_timestamp now (store 8 (PutUint64 (clockSeqAndNode s)) (replicate 16 0))) =
     Some (NodeId s)"
  unfolding UUID_NodeId_uuid NodeId_alt by (rule refl)

lemma NodeId_depends:
  "take_bit 32 (drop_bit 16 (clockSeqAndNode s')) = take_bit 32 (drop_bit 16 (clockSeqAndNode s))
   \<Longrightarrow> NodeId s' = NodeId s"
  unfolding NodeId_alt by (rule node_depends)

text \<open>
  Claim C4. In a reachable state, for \<open>v < 2^30\<close>, \<open>SetNodeId v\<close> returns no error and
  \<open>NodeId()\<close> is \<open>v\<close>; after any further calls of the generators \<open>NodeId()\<close> still is
  \<open>v\<close>, and the next identifier of \<open>New\<close> and the next of \<open>NewCrypto\<close> (which does
  return one) both have \<open>v\<close> as their \<open>NodeId()\<close>.
\<close>

theorem C4_node_id_roundtrip:
  assumes "reachable s" and "v < 0x40000000" and "gen_steps (snd (SetNodeId s v)) s'"
  shows "fst (SetNodeId s v) = None \<and>
         NodeId (snd (SetNodeId s v)) = v \<and>
         NodeId s' = v \<and>
         UUID_NodeId (fst (New s' r now)) = Some v \<and>
         (\<exists>u s''. NewCrypto s' rd now = Some (u, s'') \<and> UUID_NodeId u = Some v)"
proof -
  let ?s0 = "snd (SetNodeId s v)"
  have e: "fst (SetNodeId s v) = None"
    unfolding SetNodeId_error using top2_less [of v] assms(2) by simp
  have n0: "NodeId ?s0 = v"
    unfolding SetNodeId_NodeId using assms(2) by (rule low30_id)
  have i0: "gen_inv ?s0"
    using assms(1) by (intro SetNodeId_inv reachable_inv)
  from gen_steps_keeps [OF assms(3) i0] have i: "gen_inv s'"
    and k: "take_bit 32 (drop_bit 16 (clockSeqAndNode s')) =
            take_bit 32 (drop_bit 16 (clockSeqAndNode ?s0))"
    by simp_all
  have n: "NodeId s' = v"
    using NodeId_depends [OF k] n0 by (simp only:)
  have k1: "take_bit 32 (drop_bit 16 (clockSeqAndNode (snd (New s' r now)))) =
            take_bit 32 (drop_bit 16 (clockSeqAndNode s'))"
    unfolding New_clockSeqAndNode by (rule repack_node)
  have a: "UUID_NodeId (fst (New s' r now)) = Some v"
    unfolding New_fst node_of_uuid using NodeId_depends [OF k1] n by (simp only:)
  from NewCrypto_shape [OF i, of rd now] obtain cs nr s'' where
    c: "NewCrypto s' rd now =
       Some (put_timestamp now (store 8 (PutUint64 (clockSeqAndNode s'')) (replicate 16 0)), s'')"
    and d: "clockSeqAndNode s'' =
       (clockSeqAndNode s' AND 0xe000ffffffff0000) OR push_bit 48 (ucast (cs AND 0x1fff :: uint16)) OR
       ucast (nr :: uint16)"
    by blast
  have k2: "take_bit 32 (drop_bit 16 (clockSeqAndNode s'')) =
            take_bit 32 (drop_bit 16 (clockSeqAndNode s'))"
    unfolding d by (rule repack_node)
  have "UUID_NodeId (put_timestamp now (store 8 (PutUint64 (clockSeqAndNode s'')) (replicate 16 0)))
      = Some v"
    unfolding node_of_uuid using NodeId_depends [OF k2] n by (simp only:)
  with c have b: "\<exists>u s''. NewCrypto s' rd now = Some (u, s'') \<and> UUID_NodeId u = Some v"
    by blast
  from e n0 n a b show ?thesis by (simp only: simp_thms)
qed

text \<open>The same for the node id \<open>0x12345678\<close>, set in the state after \<open>init\<close>.\<close>

theorem C4_node_id_roundtrip_witness:
  "reachable zero_state \<and> (0x12345678 :: uint32) < 0x40000000 \<and>
   gen_steps (snd (SetNodeId zero_state 0x12345678))
     (snd (New (snd (SetNodeId zero_state 0x12345678)) 0 0)) \<and>
   fst (SetNodeId zero_state 0x12345678) = None \<and>
   NodeId (snd (SetNodeId zero_state 0x12345678)) = 0x12345678 \<and>
   NodeId (snd (New (snd (SetNodeId zero_state 0x12345678)) 0 0)) = 0x12345678 \<and>
   UUID_NodeId (fst (New (snd (New (snd (SetNodeId zero_state 0x12345678)) 0 0)) 0 0)) = Some 0x12345678 \<and>
   (\<exists>u s''. NewCrypto (snd (New (snd (SetNodeId zero_state 0x12345678)) 0 0)) [] 0 = Some (u, s'') \<and>
      UUID_NodeId u = Some 0x12345678)"
proof -
  have r: "reachable zero_state" by (rule reach_init [OF init_zero_source])
  have l: "(0x12345678 :: uint32) < 0x40000000" by simp
  have g: "gen_steps (snd (SetNodeId zero_state 0x12345678))
     (snd (New (snd (SetNodeId zero_state 0x12345678)) 0 0))"
    by (rule gen_New [OF gen_refl])
  from C4_node_id_roundtrip [OF r l g, of 0 0 "[]"] r l g show ?thesis
    by (simp only: simp_thms)
qed

section \<open>The variant accessor\<close>

lemma Variant_top3:
  "drop_bit 13 (Uint16 b AND 0xe000) = ucast (drop_bit 5 (b ! 0))"
  unfolding Uint16_def mask_e000
  by (rule bit_word_eqI) (auto simp: bit_simps bit_byte_high dest: bit_imp_le_length)

lemma uint_top3:
  fixes x :: byte
  shows "uint (ucast (drop_bit 5 x) :: uint16) = uint x div 32"
proof -
  have "uint (ucast (drop_bit 5 x) :: uint16) = uint (drop_bit 5 x)"
    by (rule bit_eqI) (auto simp: bit_simps dest: bit_imp_le_length)
  also have "\<dots> = drop_bit 5 (uint x)"
    by (rule bit_eqI) (auto simp: bit_simps dest: bit_imp_le_length)
  also have "\<dots> = uint x div 2 ^ 5"
    by (rule drop_bit_eq_div)
  finally show ?thesis by simp
qed

text \<open>
  Claim C6, as amended. On a 16-byte identifier \<open>Variant()\<close> returns the top three
  bits of byte 8 as a number from 0 to 7, that is byte 8 divided by 32: the patterns
  \<open>0xx\<close> give 0 to 3, \<open>10x\<close> gives 4 or 5, \<open>110\<close> gives 6 and \<open>111\<close> gives 7.
  The identifier of the package's tests, with byte 8 \<open>0x80\<close>, reports 4.
\<close>

theorem C6_Variant_raw_bits:
  assumes "length u = 16"
  shows "Variant u = Some (uint (u ! 8) div 32) \<and> Variant test_uuid = Some 4"
proof -
  have s: "slice u 8 10 = Some (take 2 (drop 8 u))"
    using assms by (rule slice_16)
  have h: "take 2 (drop 8 u) ! 0 = u ! 8"
    using assms by simp
  have a: "Variant u = Some (uint (u ! 8) div 32)"
    unfolding Variant_def s by (simp only: option.case Variant_top3 uint_top3 h)
  have b: "Variant test_uuid = Some 4"
    by (simp add: test_uuid_def Variant_def slice_def Uint16_def)
  from a b show ?thesis by (simp only: simp_thms)
qed

text \<open>The same on the identifier of the package's tests.\<close>

theorem C6_Variant_raw_bits_witness:
  "length test_uuid = 16 \<and> uint (test_uuid ! 8) div 32 = 4 \<and>
   Variant test_uuid = Some (uint (test_uuid ! 8) div 32)"
proof -
  have l: "length test_uuid = 16" by (simp add: test_uuid_def)
  have d: "uint (test_uuid ! 8) div 32 = 4" by (simp add: test_uuid_def)
  from C6_Variant_raw_bits [OF l] l d show ?thesis by (simp only: simp_thms)
qed

text \<open>
  The claim as stated fails on the identifier of the package's tests: its byte 8 is
  \<open>0x80\<close>, pattern \<open>100\<close>, and \<open>Variant()\<close> is 4, not 1.
\<close>

theorem C6_Variant_table_counterexample:
  "test_uuid ! 8 = 0x80 \<and> Variant test_uuid = Some 4 \<and> Variant test_uuid \<noteq> Some 1"
  by (simp add: test_uuid_def Variant_def slice_def Uint16_def)

section \<open>Hexadecimal digits and the decoder\<close>

lemma spec_hexdigit_cases:
  "spec_hexdigit c \<longleftrightarrow>
     c = CHR ''0'' \<or> c = CHR ''1'' \<or> c = CHR ''2'' \<or> c = CHR ''3'' \<or> c = CHR ''4'' \<or>
     c = CHR ''5'' \<or> c = CHR ''6'' \<or> c = CHR ''7'' \<or> c = CHR ''8'' \<or> c = CHR ''9'' \<or>
     c = CHR ''a'' \<or> c = CHR ''b'' \<or> c = CHR ''c'' \<or> c = CHR ''d'' \<or> c = CHR ''e'' \<or>
     c = CHR ''f'' \<or> c = CHR ''A'' \<or> c = CHR ''B'' \<or> c = CHR ''C'' \<or> c = CHR ''D'' \<or>
     c = CHR ''E'' \<or> c = CHR ''F''"
  by (simp add: spec_hexdigit_def)

lemma fromHexChar_digit:
  "spec_hexdigit c \<Longrightarrow> fromHexChar c = Some (of_nat (spec_hexval c)) \<and> spec_hexval c < 16"
  unfolding spec_hexdigit_cases
  by (elim disjE) (simp_all add: fromHexChar_def spec_hexval_def)

lemma char_of_code: "c = d \<longleftrightarrow> (of_char c :: nat) = of_char d"
  by simp

lemma digit_range: "48 \<le> n \<Longrightarrow> n \<le> 57 \<Longrightarrow>
    n = 48 \<or> n = 49 \<or> n = 50 \<or> n = 51 \<or> n = 52 \<or> n = 53 \<or> n = 54 \<or> n = 55 \<or> n = 56 \<or> n = (57::nat)"
  by arith

lemma lower_range: "97 \<le> n \<Longrightarrow> n \<le> 102 \<Longrightarrow>
    n = 97 \<or> n = 98 \<or> n = 99 \<or> n = 100 \<or> n = 101 \<or> n = (102::nat)"
  by arith

lemma upper_range: "65 \<le> n \<Longrightarrow> n \<le> 70 \<Longrightarrow>
    n = 65 \<or> n = 66 \<or> n = 67 \<or> n = 68 \<or> n = 69 \<or> n = (70::nat)"
  by arith

lemma spec_hexdigit_code:
  "spec_hexdigit c \<longleftrightarrow> (of_char c :: nat) \<in> {48, 49, 50, 51, 52, 53, 54, 55, 56, 57,
      97, 98, 99, 100, 101, 102, 65, 66, 67, 68, 69, 70}"
  unfolding spec_hexdigit_cases by (simp add: char_of_code [of c])

lemma fromHexChar_Some_digit:
  assumes "fromHexChar c = Some x"
  shows "spec_hexdigit c"
proof -
  define n where "n = (of_char c :: nat)"
  from assms consider "48 \<le> n \<and> n \<le> 57" | "97 \<le> n \<and> n \<le> 102" | "65 \<le> n \<and> n \<le> 70"
    unfolding fromHexChar_def Let_def n_def by (auto split: if_splits)
  then have "n \<in> {48, 49, 50, 51, 52, 53, 54, 55, 56, 57, 97, 98, 99, 100, 101, 102,
                 65, 66, 67, 68, 69, 70}"
  proof cases
    case 1
    then show ?thesis using digit_range [of n] by auto
  next
    case 2
    then show ?thesis using lower_range [of n] by auto
  next
    case 3
    then show ?thesis using upper_range [of n] by auto
  qed
  then show ?thesis
    unfolding spec_hexdigit_code n_def .
qed

lemma fromHexChar_None_iff: "fromHexChar c = None \<longleftrightarrow> \<not> spec_hexdigit c"
  using fromHexChar_Some_digit [of c] fromHexChar_digit [of c] by (cases "fromHexChar c") auto

lemma DecodeString_Inr_iff:
  "(\<exists>bs. DecodeString ds = Inr bs) \<longleftrightarrow> even (length ds) \<and> (\<forall>c \<in> set ds. spec_hexdigit c)"
proof (induction ds rule: DecodeString.induct)
  case (1 p q rest)
  show ?case
  proof (cases "spec_hexdigit p \<and> spec_hexdigit q")
    case True
    then obtain a b where "fromHexChar p = Some a" "fromHexChar q = Some b"
      using fromHexChar_digit by blast
    with True "1.IH" [of a b] show ?thesis
      by (auto split: sum.splits)
  next
    case False
    then have "fromHexChar p = None \<or> fromHexChar q = None"
      by (simp add: fromHexChar_None_iff)
    with False show ?thesis
      by (auto split: option.splits)
  qed
next
  case (2 p)
  show ?case by (simp split: option.splits)
next
  case 3
  show ?case by simp
qed

lemma nibbles_value:
  assumes "m < 16" and "n < 16"
  shows "unat (push_bit 4 (of_nat m) OR of_nat n :: byte) = 16 * m + n"
proof -
  have lo: "(of_nat n :: byte) = take_bit 4 (of_nat n)"
    using assms(2) by (simp add: take_bit_nat_eq_self flip: of_nat_take_bit)
  have "\<And>k. \<not> bit (push_bit 4 (of_nat m :: byte)) k \<or> \<not> bit (of_nat n :: byte) k"
    by (subst lo) (auto simp: bit_simps)
  then have "push_bit 4 (of_nat m :: byte) + of_nat n = push_bit 4 (of_nat m) OR of_nat n"
    by (rule disjunctive_add)
  then have "push_bit 4 (of_nat m) OR of_nat n = push_bit 4 (of_nat m :: byte) + of_nat n"
    by (rule sym)
  also have "\<dots> = (of_nat (16 * m + n) :: byte)"
    by (simp add: push_bit_eq_mult)
  finally have "push_bit 4 (of_nat m) OR of_nat n = (of_nat (16 * m + n) :: byte)" .
  moreover have "unat (of_nat (16 * m + n) :: byte) = (16 * m + n) mod 2 ^ LENGTH(8)"
    by (rule unat_of_nat)
  moreover have "(16 * m + n) mod 2 ^ LENGTH(8) = 16 * m + n"
    using assms by simp
  ultimately show ?thesis by (simp only:)
qed

lemma DecodeString_bytes:
  "DecodeString ds = Inr bs \<Longrightarrow>
     length bs = length ds div 2 \<and>
     (\<forall>i < length bs. unat (bs ! i) = 16 * spec_hexval (ds ! (2 * i)) + spec_hexval (ds ! (2 * i + 1)))"
proof (induction ds arbitrary: bs rule: DecodeString.induct)
  case (1 p q rest)
  from "1.prems" obtain a b bs' where
    a: "fromHexChar p = Some a" and b: "fromHexChar q = Some b"
    and r: "DecodeString rest = Inr bs'" and bs: "bs = (push_bit 4 a OR b) # bs'"
    by (auto split: option.splits sum.splits)
  have hp: "a = of_nat (spec_hexval p)" "spec_hexval p < 16"
    using fromHexChar_digit [OF fromHexChar_Some_digit [OF a]] a by simp_all
  have hq: "b = of_nat (spec_hexval q)" "spec_hexval q < 16"
    using fromHexChar_digit [OF fromHexChar_Some_digit [OF b]] b by simp_all
  have h0: "unat (push_bit 4 a OR b) = 16 * spec_hexval p + spec_hexval q"
    unfolding hp(1) hq(1) using hp(2) hq(2) by (rule nibbles_value)
  from "1.IH" [OF a b r] have
    l: "length bs' = length rest div 2" and
    v: "\<And>i. i < length bs' \<Longrightarrow>
          unat (bs' ! i) = 16 * spec_hexval (rest ! (2 * i)) + spec_hexval (rest ! (2 * i + 1))"
    by simp_all
  have "unat (bs ! i) = 16 * spec_hexval ((p # q # rest) ! (2 * i)) +
          spec_hexval ((p # q # rest) ! (2 * i + 1))" if "i < length bs" for i
  proof (cases i)
    case 0
    then show ?thesis using h0 bs by simp
  next
    case (Suc j)
    with that bs have "j < length bs'" by simp
    from v [OF this] show ?thesis using Suc bs by simp
  qed
  then show ?case using l bs by simp
next
  case (2 p)
  then show ?case by (simp split: option.splits)
next
  case 3
  then show ?case by simp
qed

section \<open>Parsing\<close>

lemma NewFromString_Inr:
  "NewFromString s = Inr u \<longleftrightarrow>
     DecodedLen (length (strip_dashes s)) = 16 \<and> DecodeString (strip_dashes s) = Inr u"
  by (auto simp: NewFromString_def Let_def split: sum.splits)

lemma NewFromString_Inl_iff:
  "(\<exists>e. NewFromString s = Inl e) \<longleftrightarrow> \<not> (\<exists>u. NewFromString s = Inr u)"
  by (cases "NewFromString s") auto

lemma NewFromString_accepts:
  "(\<exists>u. NewFromString s = Inr u) \<longleftrightarrow>
     length (strip_dashes s) = 32 \<and> (\<forall>c \<in> set (strip_dashes s). spec_hexdigit c)"
proof -
  have "(\<exists>u. NewFromString s = Inr u) \<longleftrightarrow>
      length (strip_dashes s) div 2 = 16 \<and> (\<exists>u. DecodeString (strip_dashes s) = Inr u)"
    unfolding NewFromString_Inr DecodedLen_def by blast
  also have "\<dots> \<longleftrightarrow> length (strip_dashes s) div 2 = 16 \<and> even (length (strip_dashes s)) \<and>
      (\<forall>c \<in> set (strip_dashes s). spec_hexdigit c)"
    unfolding DecodeString_Inr_iff by (rule refl)
  also have "\<dots> \<longleftrightarrow> length (strip_dashes s) = 32 \<and> (\<forall>c \<in> set (strip_dashes s). spec_hexdigit c)"
    by (auto elim: evenE)
  finally show ?thesis .
qed

text \<open>
  Claim C7. \<open>NewFromString s\<close> fails exactly when what is left of \<open>s\<close> after
  removing every dash is not 32 valid hexadecimal digits. When it succeeds the result
  has 16 bytes, byte \<open>i\<close> being 16 times the value of digit \<open>2i\<close> plus the value of
  digit \<open>2i+1\<close>. Where the dashes stood does not matter: two texts with the same
  digits have the same successful results.
\<close>

theorem C7_NewFromString_accepts:
  "(\<exists>e. NewFromString s = Inl e) =
     (\<not> (length (strip_dashes s) = 32 \<and> (\<forall>c \<in> set (strip_dashes s). spec_hexdigit c))) \<and>
   (\<forall>u. NewFromString s = Inr u \<longrightarrow>
      length u = 16 \<and>
      (\<forall>i < 16. unat (u ! i) =
         16 * spec_hexval (strip_dashes s ! (2 * i)) + spec_hexval (strip_dashes s ! (2 * i + 1)))) \<and>
   (\<forall>s' u. strip_dashes s' = strip_dashes s \<longrightarrow>
      (NewFromString s' = Inr u) = (NewFromString s = Inr u))"
proof (intro conjI allI impI)
  show "(\<exists>e. NewFromString s = Inl e) =
     (\<not> (length (strip_dashes s) = 32 \<and> (\<forall>c \<in> set (strip_dashes s). spec_hexdigit c)))"
    unfolding NewFromString_Inl_iff NewFromString_accepts by (rule refl)
next
  fix u assume a: "NewFromString s = Inr u"
  then have l: "length (strip_dashes s) div 2 = 16" and d: "DecodeString (strip_dashes s) = Inr u"
    unfolding NewFromString_Inr DecodedLen_def by simp_all
  from DecodeString_bytes [OF d] l show "length u = 16" by simp
next
  fix u i assume a: "NewFromString s = Inr u" and i: "i < (16 :: nat)"
  then have l: "length (strip_dashes s) div 2 = 16" and d: "DecodeString (strip_dashes s) = Inr u"
    unfolding NewFromString_Inr DecodedLen_def by simp_all
  from DecodeString_bytes [OF d] l i
  show "unat (u ! i) =
         16 * spec_hexval (strip_dashes s ! (2 * i)) + spec_hexval (strip_dashes s ! (2 * i + 1))"
    by simp
next
  fix s' u assume "strip_dashes s' = strip_dashes s"
  then show "(NewFromString s' = Inr u) = (NewFromString s = Inr u)"
    unfolding NewFromString_Inr by simp
qed

lemma strip_test_uuidString:
  "strip_dashes test_uuidString = ''f254df4a184c101980a4c61cd00a6899''"
  by (simp add: strip_dashes_def test_uuidString_def)

text \<open>
  The text of the package's tests is accepted; the one with a \<open>z\<close> in it is refused.
\<close>

theorem C7_NewFromString_accepts_witness:
  "length (strip_dashes test_uuidString) = 32 \<and>
   (\<exists>u. NewFromString test_uuidString = Inr u \<and> length u = 16) \<and>
   (\<exists>e. NewFromString ''f254df4a-184c-1z19-80a4-c61cd00a6899'' = Inl e)"
proof -
  have g: "length (strip_dashes test_uuidString) = 32 \<and>
      (\<forall>c \<in> set (strip_dashes test_uuidString). spec_hexdigit c)"
    unfolding strip_test_uuidString by (simp add: spec_hexdigit_def)
  have b: "\<not> (length (strip_dashes ''f254df4a-184c-1z19-80a4-c61cd00a6899'') = 32 \<and>
      (\<forall>c \<in> set (strip_dashes ''f254df4a-184c-1z19-80a4-c61cd00a6899''). spec_hexdigit c))"
    by (simp add: strip_dashes_def spec_hexdigit_def)
  from g C7_NewFromString_accepts [of test_uuidString]
  have "\<not> (\<exists>e. NewFromString test_uuidString = Inl e)" by blast
  then obtain u where u: "NewFromString test_uuidString = Inr u"
    by (cases "NewFromString test_uuidString") auto
  with C7_NewFromString_accepts [of test_uuidString] have "length u = 16" by blast
  moreover from b C7_NewFromString_accepts [of "''f254df4a-184c-1z19-80a4-c61cd00a6899''"]
  have "\<exists>e. NewFromString ''f254df4a-184c-1z19-80a4-c61cd00a6899'' = Inl e" by blast
  ultimately show ?thesis using g u by blast
qed

text \<open>
  Claim C10. Parsing checks neither version nor variant: the text of 32 zeros is
  accepted, and the identifier it gives has \<open>Version() = 0\<close> and \<open>Variant() = 0\<close>,
  neither of them 1.
\<close>

theorem C10_parse_skips_validation:
  "\<exists>u. NewFromString ''00000000000000000000000000000000'' = Inr u \<and>
       Version u = Some 0 \<and> Variant u = Some 0 \<and> Version u \<noteq> Some 1 \<and> Variant u \<noteq> Some 1"
proof -
  have f: "fromHexChar CHR ''0'' = Some 0"
    by (simp add: fromHexChar_def)
  have "NewFromString ''00000000000000000000000000000000'' =
      Inr [0, 0, 0, 0, 0, 0, 0, 0, 0, 0, 0, 0, 0, 0, 0, 0]"
    by (simp add: NewFromString_def strip_dashes_def DecodedLen_def f)
  moreover have "Version [0, 0, 0, 0, 0, 0, 0, 0, 0, 0, 0, 0, 0, 0, 0, 0] = Some 0"
    by (simp add: Version_def slice_def Uint16_def)
  moreover have "Variant [0, 0, 0, 0, 0, 0, 0, 0, 0, 0, 0, 0, 0, 0, 0, 0] = Some 0"
    by (simp add: Variant_def slice_def Uint16_def)
  ultimately show ?thesis by simp
qed

section \<open>Formatting and parsing back\<close>

lemma nibble_range: "k < 16 \<Longrightarrow>
    k = 0 \<or> k = 1 \<or> k = 2 \<or> k = 3 \<or> k = 4 \<or> k = 5 \<or> k = 6 \<or> k = 7 \<or>
    k = 8 \<or> k = 9 \<or> k = 10 \<or> k = 11 \<or> k = 12 \<or> k = 13 \<or> k = 14 \<or> k = (15::nat)"
  by arith

lemma fromHexChar_hextable_nat:
  "k < 16 \<Longrightarrow> fromHexChar (hextable ! k) = Some (of_nat k) \<and> hextable ! k \<in> set hextable"
  by (drule nibble_range, elim disjE) (simp_all add: hextable_def fromHexChar_def)

lemma unat_nibbles:
  fixes v :: byte
  shows "unat (drop_bit 4 v) = unat v div 16" "unat (v AND 0x0f) = unat v mod 16"
    "unat (drop_bit 4 v) < 16" "unat (v AND 0x0f) < 16"
proof -
  have d: "unat (drop_bit 4 v) = unat v div 2 ^ 4"
    using unat_drop_bit_eq [of 4 v] drop_bit_eq_div [of 4 "unat v"] by (simp only:)
  then show 1: "unat (drop_bit 4 v) = unat v div 16" by simp
  have "(0x0f :: byte) = mask 4" by (simp add: mask_eq_exp_minus_1)
  then have "v AND 0x0f = take_bit 4 v" by (simp only: take_bit_eq_mask)
  then have "unat (v AND 0x0f) = take_bit 4 (unat v)"
    by (simp only: unsigned_take_bit_eq)
  then have "unat (v AND 0x0f) = unat v mod 2 ^ 4"
    by (simp only: take_bit_eq_mod)
  then show 2: "unat (v AND 0x0f) = unat v mod 16" by simp
  have "unat v < 256" using unsigned_less [of v, where ?'a = nat] by simp
  then show "unat (drop_bit 4 v) < 16" unfolding 1 by simp
  show "unat (v AND 0x0f) < 16" unfolding 2 by simp
qed

lemma mask_0f: "(0x0f :: byte) = mask 4"
  by (simp add: mask_eq_exp_minus_1)

lemma nibbles_join:
  fixes v :: byte
  shows "push_bit 4 (drop_bit 4 v) OR (v AND 0x0f) = v"
  unfolding mask_0f
  by (rule bit_word_eqI) (auto simp: bit_simps)

lemma length_EncodeToString: "length (EncodeToString u) = 2 * length u"
  by (induction u) simp_all

lemma set_EncodeToString: "set (EncodeToString u) \<subseteq> set hextable"
proof (induction u)
  case Nil
  show ?case by simp
next
  case (Cons v vs)
  have "hextable ! unat (drop_bit 4 v) \<in> set hextable" "hextable ! unat (v AND 0x0f) \<in> set hextable"
    using fromHexChar_hextable_nat unat_nibbles(3,4) by blast+
  with Cons show ?case by simp
qed

lemma EncodeToString_nth:
  "i < length u \<Longrightarrow>
     EncodeToString u ! (2 * i) = hextable ! (unat (u ! i) div 16) \<and>
     EncodeToString u ! (2 * i + 1) = hextable ! (unat (u ! i) mod 16)"
proof (induction u arbitrary: i)
  case Nil
  then show ?case by simp
next
  case (Cons v vs)
  show ?case
  proof (cases i)
    case 0
    then show ?thesis by (simp add: unat_nibbles(1,2))
  next
    case (Suc j)
    with Cons.prems have "j < length vs" by simp
    from Cons.IH [OF this] Suc show ?thesis by simp
  qed
qed

lemma DecodeString_EncodeToString: "DecodeString (EncodeToString u) = Inr u"
proof (induction u)
  case Nil
  show ?case by simp
next
  case (Cons v vs)
  have a: "fromHexChar (hextable ! unat (drop_bit 4 v)) = Some (drop_bit 4 v)"
    using fromHexChar_hextable_nat [OF unat_nibbles(3) [of v]] by simp
  have b: "fromHexChar (hextable ! unat (v AND 0x0f)) = Some (v AND 0x0f)"
    using fromHexChar_hextable_nat [OF unat_nibbles(4) [of v]] by simp
  show ?case
    by (simp only: EncodeToString.simps DecodeString.simps a b option.case Cons sum.case nibbles_join)
qed

lemma dash_not_hex: "CHR ''-'' \<notin> set hextable"
  by (simp add: hextable_def)

lemma strip_dashes_hex: "set xs \<subseteq> set hextable \<Longrightarrow> strip_dashes xs = xs"
  unfolding strip_dashes_def using dash_not_hex by (auto simp: filter_id_conv)

lemma strip_dashes_append: "strip_dashes (xs @ ys) = strip_dashes xs @ strip_dashes ys"
  by (simp add: strip_dashes_def)

lemma strip_dashes_dash: "strip_dashes ''-'' = []"
  by (simp add: strip_dashes_def)

lemma split_32:
  assumes "length h = 32"
  shows "take 8 h @ take 4 (drop 8 h) @ take 4 (drop 12 h) @ take 4 (drop 16 h) @ take 12 (drop 20 h) = h"
proof -
  have e: "take 12 (drop 20 h) = drop 20 h" using assms by simp
  have 1: "take 4 (drop 16 h) @ drop 20 h = drop 16 h"
    using append_take_drop_id [of 4 "drop 16 h"] by simp
  have 2: "take 4 (drop 12 h) @ drop 16 h = drop 12 h"
    using append_take_drop_id [of 4 "drop 12 h"] by simp
  have 3: "take 4 (drop 8 h) @ drop 12 h = drop 8 h"
    using append_take_drop_id [of 4 "drop 8 h"] by simp
  show ?thesis
    unfolding e 1 2 3 by simp
qed

lemma String_16:
  assumes "length u = 16"
  shows "String u = Some (take 8 (Hex u) @ ''-'' @ take 4 (drop 8 (Hex u)) @ ''-'' @
           take 4 (drop 12 (Hex u)) @ ''-'' @ take 4 (drop 16 (Hex u)) @ ''-'' @
           take 12 (drop 20 (Hex u)))"
  using assms by (simp add: String_def Let_def Hex_def length_EncodeToString)

lemma strip_dashes_piece:
  "set h \<subseteq> set hextable \<Longrightarrow> strip_dashes (take n (drop m h)) = take n (drop m h)"
  "set h \<subseteq> set hextable \<Longrightarrow> strip_dashes (take n h) = take n h"
proof -
  assume a: "set h \<subseteq> set hextable"
  have "set (take n (drop m h)) \<subseteq> set h"
    using set_take_subset set_drop_subset by (meson subset_trans)
  with a show "strip_dashes (take n (drop m h)) = take n (drop m h)"
    by (intro strip_dashes_hex) blast
  have "set (take n h) \<subseteq> set h" by (rule set_take_subset)
  with a show "strip_dashes (take n h) = take n h"
    by (intro strip_dashes_hex) blast
qed

text \<open>
  Claim C8. For a 16-byte identifier \<open>u\<close>, \<open>String()\<close> returns a text of 36
  characters with dashes at positions 8, 13, 18 and 23, whose other characters are the
  32 lower-case digits of \<open>Hex()\<close>, two per byte, high nibble first;
  \<open>NewFromString\<close> gives \<open>u\<close> back from that text and from the 32 digits without
  the dashes.
\<close>

theorem C8_String_roundtrip:
  assumes "length u = 16"
  shows "\<exists>str. String u = Some str \<and>
           length str = 36 \<and>
           str ! 8 = CHR ''-'' \<and> str ! 13 = CHR ''-'' \<and> str ! 18 = CHR ''-'' \<and> str ! 23 = CHR ''-'' \<and>
           strip_dashes str = Hex u \<and>
           length (Hex u) = 32 \<and>
           set (Hex u) \<subseteq> set ''0123456789abcdef'' \<and>
           (\<forall>i < 16. Hex u ! (2 * i) = ''0123456789abcdef'' ! (unat (u ! i) div 16) \<and>
                     Hex u ! (2 * i + 1) = ''0123456789abcdef'' ! (unat (u ! i) mod 16)) \<and>
           NewFromString str = Inr u \<and>
           NewFromString (Hex u) = Inr u"
proof -
  let ?h = "Hex u"
  let ?str = "take 8 ?h @ ''-'' @ take 4 (drop 8 ?h) @ ''-'' @ take 4 (drop 12 ?h) @ ''-'' @
           take 4 (drop 16 ?h) @ ''-'' @ take 12 (drop 20 ?h)"
  have l: "length ?h = 32"
    using assms by (simp add: Hex_def length_EncodeToString)
  have sub: "set ?h \<subseteq> set hextable"
    unfolding Hex_def by (rule set_EncodeToString)
  have s: "String u = Some ?str"
    using assms by (rule String_16)
  have ls: "length ?str = 36"
    using l by simp
  have d: "?str ! 8 = CHR ''-''" "?str ! 13 = CHR ''-''" "?str ! 18 = CHR ''-''" "?str ! 23 = CHR ''-''"
    using l by (simp_all add: nth_append)
  have st: "strip_dashes ?str = ?h"
    unfolding strip_dashes_append strip_dashes_dash strip_dashes_piece [OF sub]
    using split_32 [OF l] by simp
  have sh: "strip_dashes ?h = ?h"
    using sub by (rule strip_dashes_hex)
  have dec: "DecodeString ?h = Inr u"
    unfolding Hex_def by (rule DecodeString_EncodeToString)
  have p1: "NewFromString ?str = Inr u"
    unfolding NewFromString_Inr st using l dec by (simp add: DecodedLen_def)
  have p2: "NewFromString ?h = Inr u"
    unfolding NewFromString_Inr sh using l dec by (simp add: DecodedLen_def)
  have n: "\<forall>i < 16. ?h ! (2 * i) = ''0123456789abcdef'' ! (unat (u ! i) div 16) \<and>
                     ?h ! (2 * i + 1) = ''0123456789abcdef'' ! (unat (u ! i) mod 16)"
    using EncodeToString_nth [of _ u] assms unfolding Hex_def hextable_def by simp
  have sub': "set ?h \<subseteq> set ''0123456789abcdef''"
    using sub unfolding hextable_def .
  from s ls d st l sub' n p1 p2 show ?thesis by blast
qed

lemma Hex_test_uuid: "Hex test_uuid = ''f254df4a184c101980a4c61cd00a6899''"
  by (simp add: Hex_def test_uuid_def hextable_def)

text \<open>The same on the identifier and the text of the package's tests.\<close>

theorem C8_String_roundtrip_witness:
  "length test_uuid = 16 \<and> String test_uuid = Some test_uuidString \<and>
   NewFromString test_uuidString = Inr test_uuid \<and>
   NewFromString ''f254df4a184c101980a4c61cd00a6899'' = Inr test_uuid"
proof -
  have l: "length test_uuid = 16" by (simp add: test_uuid_def)
  have s: "String test_uuid = Some test_uuidString"
    unfolding String_16 [OF l] Hex_test_uuid by (simp add: test_uuidString_def)
  from C8_String_roundtrip [OF l] l s show ?thesis
    unfolding Hex_test_uuid by auto
qed

end
